theory Spec2Isabelle
  imports Main
begin

section \<open>Numbers\<close>

text \<open>
  The numbers of JavaScript are the IEEE 754 doubles. A finite double is written here
  as the decimal that \<^verbatim>\<open>Number.prototype.toString\<close> prints for it: \<open>Dec m e\<close> is
  the double nearest to \<open>m \<times> 10 ^ e\<close>, where \<open>m\<close> has as few digits as a decimal
  that still reads back as this double can have (so \<open>4.5\<close> is \<open>Dec 45 (- 1)\<close>,
  \<open>0.1\<close> is \<open>Dec 1 (- 1)\<close> and \<open>1e21\<close> is \<open>Dec 1 21\<close>; zero is
  \<open>Dec 0 0\<close>). Next to the finite doubles stand the negative zero and the two
  infinities. \<open>NaN\<close> is left out: the numbers of an event are read from the JSON
  answers of the remote store and the scripts do no arithmetic on them, and no JSON text
  denotes \<open>NaN\<close>.
\<close>

datatype number = Dec int int | Neg_zero | Pos_infinity | Neg_infinity

text \<open>
  Rounding a positive rational \<open>a / b\<close> to the nearest double, ties to the even
  mantissa: the result is \<open>Finite m e\<close>, the double \<open>m \<times> 2 ^ e\<close> with
  \<open>m < 2 ^ 53\<close> and \<open>- 1074 \<le> e \<le> 971\<close> (subnormal when \<open>m < 2 ^ 52\<close>), or
  \<open>Overflow\<close> when the rounded value is beyond the largest double.
\<close>

function bit_length :: "int \<Rightarrow> int" where
  "bit_length n = (if n \<le> 0 then 0 else 1 + bit_length (n div 2))"
  by pat_completeness auto
termination
  by (relation "measure nat") auto

declare bit_length.simps [simp del]

definition at_least_pow2 :: "int \<Rightarrow> int \<Rightarrow> int \<Rightarrow> bool" where
  "at_least_pow2 a b t = (if 0 \<le> t then b * 2 ^ nat t \<le> a else b \<le> a * 2 ^ nat (- t))"

definition floor_log2 :: "int \<Rightarrow> int \<Rightarrow> int" where
  "floor_log2 a b =
     (let t = bit_length a - bit_length b
      in if at_least_pow2 a b t then t else t - 1)"

definition round_half_even :: "int \<Rightarrow> int \<Rightarrow> int" where
  "round_half_even a b =
     (let f = a div b; r = a mod b
      in if 2 * r < b then f
         else if b < 2 * r then f + 1
         else if even f then f else f + 1)"

datatype binary = Finite int int | Overflow

definition to_double :: "int \<Rightarrow> int \<Rightarrow> binary" where
  "to_double a b =
     (let eb = max (floor_log2 a b - 52) (- 1074);
          m = (if 0 \<le> eb then round_half_even a (b * 2 ^ nat eb)
               else round_half_even (a * 2 ^ nat (- eb)) b);
          eb' = (if m = 2 ^ 53 then eb + 1 else eb);
          m' = (if m = 2 ^ 53 then 2 ^ 52 else m)
      in if 971 < eb' then Overflow else Finite m' eb')"

text \<open>
  A decimal \<open>M \<times> 10 ^ E\<close> as a fraction of two integers.
\<close>

definition fraction_of :: "int \<Rightarrow> int \<Rightarrow> int \<times> int" where
  "fraction_of M E = (if 0 \<le> E then (M * 10 ^ nat E, 1) else (M, 10 ^ nat (- E)))"

text \<open>
  The shortest decimal of a double \<open>m \<times> 2 ^ e\<close>. The double has an exact decimal
  expansion \<open>M \<times> 10 ^ E\<close> of \<open>D\<close> digits (\<open>exact_decimal\<close>);
  \<open>shortest_with\<close> looks for a decimal of \<open>k\<close> digits that rounds to the double
  \<open>x\<close>, among the two decimals of \<open>k\<close> digits around the exact value, and prefers
  the nearer one; \<open>shortest_search\<close> takes the first \<open>k\<close> that has one (17 digits
  always do), and trailing zeros are moved to the exponent.
\<close>

definition digit_char :: "int \<Rightarrow> char" where
  "digit_char d = char_of (48 + d)"

function decimal_digits :: "int \<Rightarrow> string" where
  "decimal_digits n =
     (if n < 10 then [digit_char n] else decimal_digits (n div 10) @ [digit_char (n mod 10)])"
  by pat_completeness auto
termination
  by (relation "measure nat") auto

declare decimal_digits.simps [simp del]

function reduce_binary :: "int \<Rightarrow> int \<Rightarrow> int \<times> int" where
  "reduce_binary m e =
     (if 0 < m \<and> even m \<and> e < 0 then reduce_binary (m div 2) (e + 1) else (m, e))"
  by pat_completeness auto
termination
  by (relation "measure (\<lambda>(m, e). nat m)") auto

declare reduce_binary.simps [simp del]

definition exact_decimal :: "int \<Rightarrow> int \<Rightarrow> int \<times> int" where
  "exact_decimal m e =
     (case reduce_binary m e of
        (m', e') \<Rightarrow> (if 0 \<le> e' then (m' * 2 ^ nat e', 0) else (m' * 5 ^ nat (- e'), e')))"

definition rounds_to :: "int \<Rightarrow> int \<Rightarrow> binary \<Rightarrow> bool" where
  "rounds_to s E x = (case fraction_of s E of (a, b) \<Rightarrow> to_double a b = x)"

definition shortest_with :: "int \<Rightarrow> int \<Rightarrow> int \<Rightarrow> binary \<Rightarrow> int \<Rightarrow> (int \<times> int) option" where
  "shortest_with M E D x k =
     (if D \<le> k then Some (M, E)
      else
        (let p = 10 ^ nat (D - k); low = M div p; r = M mod p; E' = E + (D - k);
             ok_low = rounds_to low E' x;
             ok_high = rounds_to (low + 1) E' x
         in if ok_low \<and> (\<not> ok_high \<or> 2 * r \<le> p) then Some (low, E')
            else if ok_high then Some (low + 1, E')
            else None))"

function strip_zeros :: "int \<Rightarrow> int \<Rightarrow> int \<times> int" where
  "strip_zeros s E = (if 0 < s \<and> s mod 10 = 0 then strip_zeros (s div 10) (E + 1) else (s, E))"
  by pat_completeness auto
termination
  by (relation "measure (\<lambda>(s, E). nat s)") auto

declare strip_zeros.simps [simp del]

function shortest_search :: "int \<Rightarrow> int \<Rightarrow> int \<Rightarrow> binary \<Rightarrow> int \<Rightarrow> int \<times> int" where
  "shortest_search M E D x k =
     (if 17 < k then (M, E)
      else (case shortest_with M E D x k of
              Some found \<Rightarrow> found
            | None \<Rightarrow> shortest_search M E D x (k + 1)))"
  by pat_completeness auto
termination
  by (relation "measure (\<lambda>(M, E, D, x, k). nat (18 - k))") auto

declare shortest_search.simps [simp del]

definition shortest_decimal :: "int \<Rightarrow> int \<Rightarrow> int \<times> int" where
  "shortest_decimal m e =
     (case exact_decimal m e of
        (M, E) \<Rightarrow>
          (case shortest_search M E (int (length (decimal_digits M))) (Finite m e) 1 of
             (s, E') \<Rightarrow> strip_zeros s E'))"

definition signed_zero :: "bool \<Rightarrow> number" where
  "signed_zero negative = (if negative then Neg_zero else Dec 0 0)"

definition Number_of_decimal :: "bool \<Rightarrow> int \<Rightarrow> int \<Rightarrow> number" where
  "Number_of_decimal negative M E =
     (if M = 0 then signed_zero negative
      else (case fraction_of M E of
              (a, b) \<Rightarrow>
                (case to_double a b of
                   Overflow \<Rightarrow> (if negative then Neg_infinity else Pos_infinity)
                 | Finite m e \<Rightarrow>
                     (if m = 0 then signed_zero negative
                      else (case shortest_decimal m e of
                              (s, E') \<Rightarrow> Dec (if negative then - s else s) E')))))"

text \<open>
  The values of the type that are doubles: a decimal is the one its double is written
  with.
\<close>

fun is_Number :: "number \<Rightarrow> bool" where
  "is_Number (Dec m e) = (Number_of_decimal (m < 0) \<bar>m\<bar> e = Dec m e)"
| "is_Number Neg_zero = True"
| "is_Number Pos_infinity = True"
| "is_Number Neg_infinity = True"

text \<open>
  \<^verbatim>\<open>Number.prototype.toString\<close>: with \<open>k\<close> digits and the decimal point after the
  \<open>n\<close>-th, the digits are padded with zeros up to \<open>n \<le> 21\<close>, split by a point,
  or preceded by \<open>0.\<close> and up to five zeros; every other number is written with an
  exponent.
\<close>

definition format_decimal :: "int \<Rightarrow> int \<Rightarrow> string" where
  "format_decimal s e =
     (let ds = decimal_digits s; k = int (length ds); n = k + e
      in if k \<le> n \<and> n \<le> 21 then ds @ replicate (nat (n - k)) (CHR ''0'')
         else if 0 < n \<and> n \<le> 21 then take (nat n) ds @ CHR ''.'' # drop (nat n) ds
         else if - 6 < n \<and> n \<le> 0 then CHR ''0'' # CHR ''.'' # replicate (nat (- n)) (CHR ''0'') @ ds
         else (let x = n - 1;
                   exponent = CHR ''e'' # (if 0 \<le> x then CHR ''+'' else CHR ''-'')
                                # decimal_digits \<bar>x\<bar>
               in if k = 1 then ds @ exponent else hd ds # CHR ''.'' # tl ds @ exponent))"

definition Number_toString :: "number \<Rightarrow> string" where
  "Number_toString x =
     (case x of
        Dec m e \<Rightarrow>
          (if m = 0 then ''0''
           else if m < 0 then CHR ''-'' # format_decimal (- m) e
           else format_decimal m e)
      | Neg_zero \<Rightarrow> ''0''
      | Pos_infinity \<Rightarrow> ''Infinity''
      | Neg_infinity \<Rightarrow> ''-Infinity'')"

text \<open>
  The number token of the JSON grammar: an optional minus, an integer part without a
  leading zero, an optional fraction and an optional exponent. The value is the double
  nearest to the numeral.
\<close>

definition is_digit :: "char \<Rightarrow> bool" where
  "is_digit c = (48 \<le> (of_char c :: int) \<and> (of_char c :: int) \<le> 57)"

definition digit_val :: "char \<Rightarrow> int" where
  "digit_val c = of_char c - 48"

definition int_of_digits :: "string \<Rightarrow> int" where
  "int_of_digits ds = foldl (\<lambda>a c. 10 * a + digit_val c) 0 ds"

definition parse_fraction :: "string \<Rightarrow> (string \<times> string) option" where
  "parse_fraction r =
     (case r of
        [] \<Rightarrow> Some ([], r)
      | c # cs \<Rightarrow>
          (if c = CHR ''.''
           then (let frac = takeWhile is_digit cs
                 in if frac = [] then None else Some (frac, dropWhile is_digit cs))
           else Some ([], r)))"

definition parse_exponent :: "string \<Rightarrow> (int \<times> string) option" where
  "parse_exponent r =
     (case r of
        [] \<Rightarrow> Some (0, r)
      | c # cs \<Rightarrow>
          (if c = CHR ''e'' \<or> c = CHR ''E''
           then (let minus = (case cs of [] \<Rightarrow> False | d # ds \<Rightarrow> d = CHR ''-'');
                     signed = (case cs of [] \<Rightarrow> False | d # ds \<Rightarrow> d = CHR ''-'' \<or> d = CHR ''+'');
                     body = (if signed then tl cs else cs);
                     digits = takeWhile is_digit body
                 in if digits = [] then None
                    else Some (if minus then - int_of_digits digits else int_of_digits digits,
                               dropWhile is_digit body))
           else Some (0, r)))"

definition parse_number :: "string \<Rightarrow> (number \<times> string) option" where
  "parse_number s =
     (let negative = (case s of [] \<Rightarrow> False | c # cs \<Rightarrow> c = CHR ''-'');
          body = (if negative then tl s else s);
          whole = takeWhile is_digit body;
          r1 = dropWhile is_digit body
      in if whole = [] then None
         else if 1 < length whole \<and> hd whole = CHR ''0'' then None
         else (case parse_fraction r1 of
                 None \<Rightarrow> None
               | Some (frac, r2) \<Rightarrow>
                   (case parse_exponent r2 of
                      None \<Rightarrow> None
                    | Some (x, r3) \<Rightarrow>
                        Some (Number_of_decimal negative (int_of_digits (whole @ frac))
                                (x - int (length frac)), r3))))"

text \<open>
  What may follow a number in a text: not a digit, a point or an exponent mark.
\<close>

definition number_end :: "string \<Rightarrow> bool" where
  "number_end rest = (case rest of [] \<Rightarrow> True | c # cs \<Rightarrow> \<not> is_digit c \<and> c \<notin> set ''.eE'')"

section \<open>JavaScript values\<close>

text \<open>
  The values that the sync scripts put into an event and serialise with
  \<^verbatim>\<open>JSON.stringify\<close>. Strings are sequences of UTF-8 bytes; numbers are the
  doubles of the section above. An object is an association list in property
  enumeration order, taken to be the order of insertion (the special place of keys that
  are array indices is left out); its keys are pairwise distinct in every object the
  scripts build.
\<close>

datatype js =
    JNull
  | JBool bool
  | JNum number
  | JStr string
  | JArr "js list"
  | JObj "(string \<times> js) list"

text \<open>JavaScript truthiness, as used by \<^verbatim>\<open>||\<close>, \<^verbatim>\<open>&&\<close>, \<^verbatim>\<open>!\<close> and \<^verbatim>\<open>if\<close>.\<close>

fun truthy :: "js \<Rightarrow> bool" where
  "truthy JNull = False"
| "truthy (JBool b) = b"
| "truthy (JNum n) = (n \<noteq> Dec 0 0 \<and> n \<noteq> Neg_zero)"
| "truthy (JStr s) = (s \<noteq> [])"
| "truthy (JArr xs) = True"
| "truthy (JObj kvs) = True"

text \<open>\<^verbatim>\<open>a || b\<close> on values.\<close>

definition js_or :: "js \<Rightarrow> js \<Rightarrow> js" where
  "js_or a b = (if truthy a then a else b)"

text \<open>
  A nullable string field read through optional chaining:
  \<^verbatim>\<open>x?.name || null\<close> is \<open>null\<close> when the field is missing or the empty string.
\<close>

definition str_or_null :: "string option \<Rightarrow> js" where
  "str_or_null s = (case s of None \<Rightarrow> JNull | Some t \<Rightarrow> js_or (JStr t) JNull)"

text \<open>\<^verbatim>\<open>xs?.map(f).join("") || null\<close> over the plain texts of the spans.\<close>

definition joined_or_null :: "string list option \<Rightarrow> js" where
  "joined_or_null spans =
     (case spans of None \<Rightarrow> JNull | Some ts \<Rightarrow> js_or (JStr (concat ts)) JNull)"

text \<open>\<^verbatim>\<open>xs?.map((x) => x.name) || []\<close>: an array, empty when the field is missing.\<close>

definition strs_or_empty :: "string list option \<Rightarrow> js" where
  "strs_or_empty xs = (case xs of None \<Rightarrow> JArr [] | Some ts \<Rightarrow> JArr (map JStr ts))"

section \<open>Typed fields of a remote record\<close>

text \<open>
  A property of a Notion page, by its \<^verbatim>\<open>type\<close> tag. Each constructor carries the
  payload that \<^verbatim>\<open>extractPropertyValue\<close> reads for that tag; \<open>None\<close> stands for
  a payload that is \<open>null\<close> or missing (the source reads it with \<^verbatim>\<open>?.\<close>).
\<close>

datatype date_value = Date_value (start: string) (end_date: "string option")

datatype file_ref =
  File_ref (file_name: string) (hosted_url: "string option") (external_url: "string option")

datatype formula =
    FString "string option"
  | FNumber "number option"
  | FBoolean "bool option"
  | FDate "date_value option"
  | FOther string

datatype property =
    PTitle "string list option"
  | PRichText "string list option"
  | PNumber "number option"
  | PSelect "string option"
  | PMultiSelect "string list option"
  | PDate "date_value option"
  | PCheckbox bool
  | PUrl "string option"
  | PEmail "string option"
  | PPhoneNumber "string option"
  | PStatus "string option"
  | PRelation "string list option"
  | PRollup "property list option" "number option"
  | PFormula "formula option"
  | PCreatedTime "string option"
  | PLastEditedTime "string option"
  | PCreatedBy "string option"
  | PLastEditedBy "string option"
  | PPeople "string list option"
  | PFiles "file_ref list option"
  | PUnknown string
  | PUntagged

definition date_start_or_null :: "date_value option \<Rightarrow> js" where
  "date_start_or_null d = str_or_null (map_option start d)"

definition num_or_null :: "number option \<Rightarrow> js" where
  "num_or_null n = (case n of None \<Rightarrow> JNull | Some k \<Rightarrow> JNum k)"

definition extractFormula :: "formula option \<Rightarrow> js" where
  "extractFormula f =
     (case f of
        Some (FString s) \<Rightarrow> str_or_null s
      | Some (FNumber n) \<Rightarrow> num_or_null n
      | Some (FBoolean b) \<Rightarrow> (case b of None \<Rightarrow> JNull | Some v \<Rightarrow> JBool v)
      | Some (FDate d) \<Rightarrow> date_start_or_null d
      | Some (FOther t) \<Rightarrow> JNull
      | None \<Rightarrow> JNull)"

definition extractFile :: "file_ref \<Rightarrow> js" where
  "extractFile f =
     JObj [(''name'', JStr (file_name f)),
           (''url'', js_or (str_or_null (hosted_url f)) (js_or (str_or_null (external_url f)) JNull))]"

text \<open>
  \<^verbatim>\<open>extractPropertyValue\<close> (both copies of the fetch script have the same body).
  The rollup case maps over the array, treating a nested title item inline and every
  other item by the recursive call, and drops the \<open>null\<close> results.
\<close>

fun extractPropertyValue :: "property \<Rightarrow> js" where
  "extractPropertyValue PUntagged = JNull"
| "extractPropertyValue (PTitle t) = joined_or_null t"
| "extractPropertyValue (PRichText t) = joined_or_null t"
| "extractPropertyValue (PNumber n) = num_or_null n"
| "extractPropertyValue (PSelect s) = str_or_null s"
| "extractPropertyValue (PMultiSelect xs) = strs_or_empty xs"
| "extractPropertyValue (PDate d) = date_start_or_null d"
| "extractPropertyValue (PCheckbox b) = js_or (JBool b) (JBool False)"
| "extractPropertyValue (PUrl s) = str_or_null s"
| "extractPropertyValue (PEmail s) = str_or_null s"
| "extractPropertyValue (PPhoneNumber s) = str_or_null s"
| "extractPropertyValue (PStatus s) = str_or_null s"
| "extractPropertyValue (PRelation ids) = strs_or_empty ids"
| "extractPropertyValue (PRollup (Some items) n) =
     JArr (filter (\<lambda>v. v \<noteq> JNull)
        (map (\<lambda>item. case item of PTitle t \<Rightarrow> joined_or_null t
                               | _ \<Rightarrow> extractPropertyValue item) items))"
| "extractPropertyValue (PRollup None n) = js_or (num_or_null n) JNull"
| "extractPropertyValue (PFormula f) = extractFormula f"
| "extractPropertyValue (PCreatedTime s) = str_or_null s"
| "extractPropertyValue (PLastEditedTime s) = str_or_null s"
| "extractPropertyValue (PCreatedBy s) = str_or_null s"
| "extractPropertyValue (PLastEditedBy s) = str_or_null s"
| "extractPropertyValue (PPeople ids) = strs_or_empty ids"
| "extractPropertyValue (PFiles fs) =
     (case fs of None \<Rightarrow> JArr [] | Some xs \<Rightarrow> JArr (map extractFile xs))"
| "extractPropertyValue (PUnknown tag) = JNull"

text \<open>The guard \<^verbatim>\<open>!property\<close>: a missing property extracts to \<open>null\<close>.\<close>

definition extractPropertyValue_nullable :: "property option \<Rightarrow> js" where
  "extractPropertyValue_nullable p = (case p of None \<Rightarrow> JNull | Some q \<Rightarrow> extractPropertyValue q)"

section \<open>Record mapper\<close>

text \<open>
  An event is the object built by \<^verbatim>\<open>mapEvent\<close>: keys in insertion order.
  \<^verbatim>\<open>event[key] = value\<close> overwrites in place or appends, \<^verbatim>\<open>delete event[key]\<close>
  removes the key, and reading a missing key gives \<open>undefined\<close>, which is falsy.
\<close>

type_synonym event = "(string \<times> js) list"

record page =
  page_id :: string
  properties :: "(string \<times> property) list"

fun obj_set :: "event \<Rightarrow> string \<Rightarrow> js \<Rightarrow> event" where
  "obj_set [] k v = [(k, v)]"
| "obj_set ((k', v') # kvs) k v =
     (if k' = k then (k, v) # kvs else (k', v') # obj_set kvs k v)"

definition obj_delete :: "event \<Rightarrow> string \<Rightarrow> event" where
  "obj_delete ev k = filter (\<lambda>kv. fst kv \<noteq> k) ev"

definition obj_keys :: "event \<Rightarrow> string set" where
  "obj_keys ev = fst ` set ev"

definition prop_truthy :: "event \<Rightarrow> string \<Rightarrow> bool" where
  "prop_truthy ev k = (case map_of ev k of None \<Rightarrow> False | Some v \<Rightarrow> truthy v)"

datatype error =
    RangeError
  | SyntaxError
  | Errno string
  | APIError string

text \<open>
  \<^verbatim>\<open>formatDatePretty\<close>. The parameter \<open>fmt\<close> stands for the runtime's
  \<^verbatim>\<open>new Intl.DateTimeFormat("en-GB", ...).format(new Date(x))\<close>, which depends on the
  time zone of the machine and throws a \<^verbatim>\<open>RangeError\<close> on an invalid date (\<open>None\<close>).
  \<^verbatim>\<open>.replace(",", "")\<close> removes the first comma only.
\<close>

definition formatDatePretty :: "(js \<Rightarrow> string option) \<Rightarrow> js \<Rightarrow> error + js" where
  "formatDatePretty fmt dateString =
     (if \<not> truthy dateString then Inr JNull
      else case fmt dateString of
             None \<Rightarrow> Inl RangeError
           | Some s \<Rightarrow> Inr (JStr (remove1 (CHR '','') s)))"

text \<open>The exclusion list of \<^verbatim>\<open>mapEvent\<close> in src/unnamed/part_000.\<close>

definition excludedProperties :: "string list" where
  "excludedProperties = [''Location'', ''Place Name'', ''Place Link'', ''Visible on site'']"

text \<open>The exclusion list of \<^verbatim>\<open>mapEvent\<close> in src/scripts/fetch-events-from-notion.mjs.\<close>

definition excludedProperties_scripts :: "string list" where
  "excludedProperties_scripts = [''Location'', ''Visible on site'']"

text \<open>
  The callback of \<^verbatim>\<open>Object.keys(props).forEach\<close>: skip an excluded key, extract,
  and store the value unless it is \<open>null\<close>. (The \<open>debug\<close> flag only logs.)
\<close>

definition collect_property :: "string list \<Rightarrow> event \<Rightarrow> string \<times> property \<Rightarrow> event" where
  "collect_property excluded ev kp =
     (if fst kp \<in> set excluded then ev
      else let v = extractPropertyValue (snd kp)
           in if v \<noteq> JNull then obj_set ev (fst kp) v else ev)"

text \<open>
  The two \<^verbatim>\<open>if\<close> statements that add \<^verbatim>\<open>datePretty\<close>: from \<^verbatim>\<open>event.Date\<close>
  when it is truthy, then from \<^verbatim>\<open>event.date\<close> when \<^verbatim>\<open>datePretty\<close> is still falsy.
\<close>

definition add_datePretty :: "(js \<Rightarrow> string option) \<Rightarrow> event \<Rightarrow> error + event" where
  "add_datePretty fmt ev =
     (case (case map_of ev ''Date'' of
              Some d \<Rightarrow>
                (if truthy d
                 then (case formatDatePretty fmt d of
                         Inl e \<Rightarrow> Inl e
                       | Inr p \<Rightarrow> Inr (obj_set ev ''datePretty'' p))
                 else Inr ev)
            | None \<Rightarrow> Inr ev) of
        Inl e \<Rightarrow> Inl e
      | Inr ev1 \<Rightarrow>
          (case map_of ev1 ''date'' of
             Some d \<Rightarrow>
               (if \<not> prop_truthy ev1 ''datePretty'' \<and> truthy d
                then (case formatDatePretty fmt d of
                        Inl e \<Rightarrow> Inl e
                      | Inr p \<Rightarrow> Inr (obj_set ev1 ''datePretty'' p))
                else Inr ev1)
           | None \<Rightarrow> Inr ev1))"

text \<open>\<^verbatim>\<open>mapEvent\<close> of src/unnamed/part_000.\<close>

definition mapEvent :: "(js \<Rightarrow> string option) \<Rightarrow> page \<Rightarrow> error + event" where
  "mapEvent fmt pg =
     (let event = foldl (collect_property excludedProperties) [] (properties pg);
          event = obj_delete event ''Place Name'';
          event = obj_delete event ''Place Link'';
          event = obj_delete event ''Place''
      in add_datePretty fmt event)"

text \<open>\<^verbatim>\<open>mapEvent\<close> of src/scripts/fetch-events-from-notion.mjs.\<close>

definition mapEvent_scripts :: "(js \<Rightarrow> string option) \<Rightarrow> page \<Rightarrow> error + event" where
  "mapEvent_scripts fmt pg =
     (let event = foldl (collect_property excludedProperties_scripts) [] (properties pg)
      in add_datePretty fmt event)"

text \<open>
  The filter of \<^verbatim>\<open>fetchAndWriteEvents\<close>:
  \<^verbatim>\<open>(event.Name || event.name) && (event.Date || event.date)\<close>.
\<close>

definition isValidEvent :: "event \<Rightarrow> bool" where
  "isValidEvent ev =
     ((prop_truthy ev ''Name'' \<or> prop_truthy ev ''name'')
      \<and> (prop_truthy ev ''Date'' \<or> prop_truthy ev ''date''))"

definition validEvents :: "event list \<Rightarrow> event list" where
  "validEvents events = filter isValidEvent events"

text \<open>An event has a name field, a date field: the key is present, whatever it holds.\<close>

definition has_name_field :: "event \<Rightarrow> bool" where
  "has_name_field ev = (''Name'' \<in> obj_keys ev \<or> ''name'' \<in> obj_keys ev)"

definition has_date_field :: "event \<Rightarrow> bool" where
  "has_date_field ev = (''Date'' \<in> obj_keys ev \<or> ''date'' \<in> obj_keys ev)"

text \<open>A value is an object (as opposed to \<open>null\<close>, a scalar or an array).\<close>

fun is_object :: "js \<Rightarrow> bool" where
  "is_object (JObj kvs) = True"
| "is_object v = False"

section \<open>Clock and dates\<close>

text \<open>
  A JavaScript \<^verbatim>\<open>Date\<close> is a time value in milliseconds since the epoch, or
  \<open>NaN\<close> (an invalid date), written \<open>None\<close>. The runtime is a parameter:
  \<open>Date_parse\<close> is \<^verbatim>\<open>new Date(string)\<close>, \<open>start_of_day\<close> is the effect of
  \<^verbatim>\<open>setHours(0, 0, 0, 0)\<close> on a valid time value (midnight of its day in the local
  time zone), and \<open>now_ms\<close> is the time value of \<^verbatim>\<open>new Date()\<close>.
\<close>

record clock =
  Date_parse :: "string \<Rightarrow> int option"
  start_of_day :: "int \<Rightarrow> int"
  now_ms :: int

text \<open>\<^verbatim>\<open>a < b\<close> and \<^verbatim>\<open>a > b\<close> on dates: false as soon as one side is \<open>NaN\<close>.\<close>

definition date_lt :: "int option \<Rightarrow> int option \<Rightarrow> bool" where
  "date_lt a b = (case a of None \<Rightarrow> False
                  | Some x \<Rightarrow> (case b of None \<Rightarrow> False | Some y \<Rightarrow> x < y))"

definition date_le :: "int option \<Rightarrow> int option \<Rightarrow> bool" where
  "date_le a b = (case a of None \<Rightarrow> False
                  | Some x \<Rightarrow> (case b of None \<Rightarrow> False | Some y \<Rightarrow> x \<le> y))"

text \<open>\<^verbatim>\<open>const d = new Date(s); d.setHours(0, 0, 0, 0)\<close>.\<close>

definition day_of :: "clock \<Rightarrow> string \<Rightarrow> int option" where
  "day_of clk s = map_option (start_of_day clk) (Date_parse clk s)"

text \<open>\<^verbatim>\<open>const now = new Date(); now.setHours(0, 0, 0, 0)\<close>.\<close>

definition today :: "clock \<Rightarrow> int option" where
  "today clk = Some (start_of_day clk (now_ms clk))"

text \<open>
  A concrete clock for evaluation: a table of parsed timestamps, and a local time zone
  at a fixed offset from UTC (in milliseconds).
\<close>

definition fixed_offset_clock :: "(string \<times> int) list \<Rightarrow> int \<Rightarrow> int \<Rightarrow> clock" where
  "fixed_offset_clock table offset now =
     \<lparr>Date_parse = map_of table,
      start_of_day = (\<lambda>t. t - (t + offset) mod 86400000),
      now_ms = now\<rparr>"

text \<open>
  The runtime itself, where the language fixes it. A date without a time is given by
  the remote store in the date-only form \<^verbatim>\<open>YYYY-MM-DD\<close> of the date-time string
  format, and \<^verbatim>\<open>new Date(string)\<close> reads this form as midnight UTC of that day
  (a date-time without an offset is read as local time, a date alone is not). Days are
  counted from the epoch as the standard does: \<open>DayFromYear\<close>, and the lengths of
  the months before.
\<close>

definition DayFromYear :: "int \<Rightarrow> int" where
  "DayFromYear y = 365 * (y - 1970) + (y - 1969) div 4 - (y - 1901) div 100 + (y - 1601) div 400"

definition InLeapYear :: "int \<Rightarrow> bool" where
  "InLeapYear y = ((y mod 4 = 0 \<and> y mod 100 \<noteq> 0) \<or> y mod 400 = 0)"

definition DaysInMonth :: "int \<Rightarrow> int \<Rightarrow> int" where
  "DaysInMonth y m =
     (if m = 2 then (if InLeapYear y then 29 else 28)
      else if m = 4 \<or> m = 6 \<or> m = 9 \<or> m = 11 then 30
      else 31)"

definition MakeDay :: "int \<Rightarrow> int \<Rightarrow> int \<Rightarrow> int" where
  "MakeDay y m d = DayFromYear y + sum_list (map (DaysInMonth y) [1..m - 1]) + d - 1"

definition parse_date_only :: "string \<Rightarrow> int option" where
  "parse_date_only s =
     (let ys = take 4 s; ms = take 2 (drop 5 s); ds = drop 8 s;
          y = int_of_digits ys; m = int_of_digits ms; d = int_of_digits ds
      in if length s = 10 \<and> s ! 4 = CHR ''-'' \<and> s ! 7 = CHR ''-''
            \<and> list_all is_digit (ys @ ms @ ds)
            \<and> 1 \<le> m \<and> m \<le> 12 \<and> 1 \<le> d \<and> d \<le> DaysInMonth y m
         then Some (MakeDay y m d * 86400000)
         else None)"

text \<open>
  A runtime in a time zone at a fixed offset from UTC (in milliseconds, negative to the
  west): it reads the date-only form as above, and every other string as \<open>other\<close>
  says. \<open>local_midnight\<close> is the time value of 00:00 local time on a calendar day.
\<close>

definition zone_clock :: "(string \<Rightarrow> int option) \<Rightarrow> int \<Rightarrow> int \<Rightarrow> clock" where
  "zone_clock other offset now =
     \<lparr>Date_parse = (\<lambda>s. case parse_date_only s of Some t \<Rightarrow> Some t | None \<Rightarrow> other s),
      start_of_day = (\<lambda>t. t - (t + offset) mod 86400000),
      now_ms = now\<rparr>"

definition local_midnight :: "int \<Rightarrow> int \<Rightarrow> int \<Rightarrow> int \<Rightarrow> int" where
  "local_midnight offset y m d = MakeDay y m d * 86400000 - offset"

section \<open>The remote store\<close>

text \<open>
  The client of the remote store, with the store's state \<open>'r\<close> passed explicitly.
  A query names its filter, whether it sorts by date, and the cursor it starts from
  (an opaque token); an update sets the \<^verbatim>\<open>Status\<close> of one page. Each call either
  fails with an error or answers.
\<close>

type_synonym cursor = nat

record response =
  results :: "page list"
  has_more :: bool
  next_cursor :: "cursor option"

datatype query_filter = Visible | Visible_and_Upcoming

record query_args =
  q_filter :: query_filter
  q_sort_by_date :: bool
  q_start_cursor :: "cursor option"
  q_page_size :: "nat option"

record update_call =
  target :: string
  new_status :: string

record 'r notion_api =
  databases_query :: "'r \<Rightarrow> query_args \<Rightarrow> error + response"
  databases_retrieve :: "'r \<Rightarrow> error + string"
  pages_update :: "'r \<Rightarrow> update_call \<Rightarrow> error option \<times> 'r"

text \<open>
  A store for evaluation: it holds the pages of answers it will give to any query,
  one page of answers per cursor, and accepts every update except those that target
  an identifier in \<open>failing\<close>.
\<close>

definition serve_pages :: "page list list \<Rightarrow> cursor option \<Rightarrow> response" where
  "serve_pages pgs c =
     (let i = (case c of None \<Rightarrow> 0 | Some j \<Rightarrow> j)
      in if i < length pgs
         then \<lparr>results = pgs ! i, has_more = (Suc i < length pgs),
               next_cursor = (if Suc i < length pgs then Some (Suc i) else None)\<rparr>
         else \<lparr>results = [], has_more = False, next_cursor = None\<rparr>)"

definition paged_store :: "string list \<Rightarrow> (page list list) notion_api" where
  "paged_store failing =
     \<lparr>databases_query = (\<lambda>pgs args. Inr (serve_pages pgs (q_start_cursor args))),
      databases_retrieve = (\<lambda>pgs. Inr ''2025-01-10T10:00:00.000Z''),
      pages_update = (\<lambda>pgs c. (if target c \<in> set failing then Some (APIError ''conflict'') else None, pgs))\<rparr>"

section \<open>Status updater\<close>

text \<open>
  The pagination loop of \<^verbatim>\<open>updateEventStatusesInNotion\<close>: query from the cursor,
  append the results, and go on from \<^verbatim>\<open>next_cursor\<close> while \<^verbatim>\<open>has_more\<close>.
  The loop runs as long as the store says there is more, so the function is partial:
  \<open>None\<close> is a loop that never ends; \<open>Some (Inl e)\<close> is a query that threw.
\<close>

partial_function (option) fetchAllPages ::
  "(cursor option \<Rightarrow> error + response) \<Rightarrow> cursor option \<Rightarrow> page list \<Rightarrow> (error + page list) option"
where
  "fetchAllPages q startCursor allPages =
     (case q startCursor of
        Inl e \<Rightarrow> Some (Inl e)
      | Inr r \<Rightarrow>
          (if has_more r then fetchAllPages q (next_cursor r) (allPages @ results r)
           else Some (Inr (allPages @ results r))))"

declare fetchAllPages.simps [code]

definition upcoming_query :: "'r notion_api \<Rightarrow> 'r \<Rightarrow> cursor option \<Rightarrow> error + response" where
  "upcoming_query api r c =
     databases_query api r
       \<lparr>q_filter = Visible_and_Upcoming, q_sort_by_date = False,
        q_start_cursor = c, q_page_size = None\<rparr>"

text \<open>\<^verbatim>\<open>page.properties.Date || page.properties.date\<close>.\<close>

definition dateProp :: "page \<Rightarrow> property option" where
  "dateProp pg =
     (case map_of (properties pg) ''Date'' of
        Some p \<Rightarrow> Some p
      | None \<Rightarrow> map_of (properties pg) ''date'')"

text \<open>
  The test of the loop body: the page has a date property of type date with a value,
  and its day is strictly before today.
\<close>

definition isPastEvent :: "clock \<Rightarrow> page \<Rightarrow> bool" where
  "isPastEvent clk pg =
     (case dateProp pg of
        Some (PDate (Some d)) \<Rightarrow> date_lt (day_of clk (start d)) (today clk)
      | _ \<Rightarrow> False)"

definition past_call :: "page \<Rightarrow> update_call" where
  "past_call pg = \<lparr>target = page_id pg, new_status = ''Past''\<rparr>"

text \<open>
  The update calls, each with its own \<^verbatim>\<open>.then\<close>/\<^verbatim>\<open>.catch\<close>: every call is
  issued, and its outcome is recorded (\<open>None\<close> when it succeeded).
\<close>

fun fire_updates :: "'r notion_api \<Rightarrow> 'r \<Rightarrow> update_call list \<Rightarrow> error option list \<times> 'r" where
  "fire_updates api r [] = ([], r)"
| "fire_updates api r (c # cs) =
     (case pages_update api r c of
        (outcome, r') \<Rightarrow>
          (case fire_updates api r' cs of (outcomes, r'') \<Rightarrow> (outcome # outcomes, r'')))"

record 'r status_run =
  returned :: js
  calls :: "update_call list"
  outcomes :: "error option list"
  updatedCount :: nat
  store_after :: 'r

text \<open>
  \<^verbatim>\<open>updateEventStatusesInNotion\<close>. It returns \<^verbatim>\<open>updatedCount > 0\<close>, and
  \<^verbatim>\<open>false\<close> from the outer \<^verbatim>\<open>catch\<close> when a query threw.
\<close>

definition updateEventStatusesInNotion ::
  "clock \<Rightarrow> 'r notion_api \<Rightarrow> 'r \<Rightarrow> 'r status_run option" where
  "updateEventStatusesInNotion clk api r =
     (case fetchAllPages (upcoming_query api r) None [] of
        None \<Rightarrow> None
      | Some (Inl e) \<Rightarrow>
          Some \<lparr>returned = JBool False, calls = [], outcomes = [], updatedCount = 0,
                store_after = r\<rparr>
      | Some (Inr allPages) \<Rightarrow>
          (let cs = map past_call (filter (isPastEvent clk) allPages);
               fired = fire_updates api r cs;
               n = length (filter (\<lambda>outcome. outcome = None) (fst fired))
           in Some \<lparr>returned = JBool (0 < n), calls = cs, outcomes = fst fired,
                    updatedCount = n, store_after = snd fired\<rparr>))"

text \<open>
  The main query of \<^verbatim>\<open>fetchAndWriteEvents\<close> (the same in both copies): one call,
  filtered to the visible records and sorted by date, of which \<^verbatim>\<open>response.results\<close>
  is used.
\<close>

definition queryVisibleEvents :: "'r notion_api \<Rightarrow> 'r \<Rightarrow> error + page list" where
  "queryVisibleEvents api r =
     (case databases_query api r
             \<lparr>q_filter = Visible, q_sort_by_date = True,
              q_start_cursor = None, q_page_size = None\<rparr> of
        Inl e \<Rightarrow> Inl e
      | Inr resp \<Rightarrow> Inr (results resp))"

text \<open>Records, a clock and formatters for evaluation.\<close>

definition upcoming_page :: "string \<Rightarrow> string \<Rightarrow> string \<Rightarrow> page" where
  "upcoming_page ident name date =
     \<lparr>page_id = ident,
      properties = [(''Name'', PTitle (Some [name])),
                    (''Date'', PDate (Some (Date_value date None))),
                    (''Status'', PStatus (Some ''Upcoming''))]\<rparr>"

definition example_clock :: clock where
  "example_clock =
     fixed_offset_clock
       [(''2000-01-01'', 946684800000), (''2000-01-02'', 946771200000),
        (''2099-01-01'', 4070908800000),
        (''2025-01-10T10:00:00.000Z'', 1736503200000)]
       0 1736510400000"

definition fixed_format :: "string \<Rightarrow> js \<Rightarrow> string option" where
  "fixed_format s d = Some s"

definition no_format :: "js \<Rightarrow> string option" where
  "no_format d = None"

section \<open>Files\<close>

text \<open>
  The files the scripts read and write, by path. A path holds a text, or nothing, or
  cannot be accessed (with the error code the system call fails with).
\<close>

datatype node = Absent | Denied string | Text string

type_synonym filesystem = "string \<Rightarrow> node"

definition readFile :: "filesystem \<Rightarrow> string \<Rightarrow> error + string" where
  "readFile fs path =
     (case fs path of
        Absent \<Rightarrow> Inl (Errno ''ENOENT'')
      | Denied code \<Rightarrow> Inl (Errno code)
      | Text s \<Rightarrow> Inr s)"

definition writeFile :: "filesystem \<Rightarrow> string \<Rightarrow> string \<Rightarrow> error + filesystem" where
  "writeFile fs path content =
     (case fs path of
        Denied code \<Rightarrow> Inl (Errno code)
      | _ \<Rightarrow> Inr (fs(path := Text content)))"

text \<open>A file system for evaluation: the listed files, and nothing else.\<close>

definition files_of :: "(string \<times> string) list \<Rightarrow> filesystem" where
  "files_of table path = (case map_of table path of None \<Rightarrow> Absent | Some s \<Rightarrow> Text s)"

text \<open>\<^verbatim>\<open>String.prototype.trim\<close>, on the ASCII white space.\<close>

definition is_space :: "char \<Rightarrow> bool" where
  "is_space c = (c \<in> set [CHR '' '', CHR 0x09, CHR 0x0A, CHR 0x0B, CHR 0x0C, CHR 0x0D])"

definition trim :: "string \<Rightarrow> string" where
  "trim s = rev (dropWhile is_space (rev (dropWhile is_space s)))"

text \<open>\<^verbatim>\<open>readLastSyncTimestamp\<close>: \<open>null\<close> when the file does not exist.\<close>

definition readLastSyncTimestamp :: "filesystem \<Rightarrow> error + string option" where
  "readLastSyncTimestamp fs =
     (case readFile fs ''.last-sync'' of
        Inr content \<Rightarrow> Inr (Some (trim content))
      | Inl err \<Rightarrow> (if err = Errno ''ENOENT'' then Inr None else Inl err))"

text \<open>\<^verbatim>\<open>getDatabaseLastEditedTime\<close>: \<open>null\<close> when the lookup fails.\<close>

definition getDatabaseLastEditedTime :: "'r notion_api \<Rightarrow> 'r \<Rightarrow> string option" where
  "getDatabaseLastEditedTime api r =
     (case databases_retrieve api r of Inl e \<Rightarrow> None | Inr ts \<Rightarrow> Some ts)"

text \<open>Truthiness of a string that may be \<open>null\<close>.\<close>

definition present :: "string option \<Rightarrow> bool" where
  "present s = (case s of None \<Rightarrow> False | Some t \<Rightarrow> t \<noteq> [])"

section \<open>Staleness checker\<close>

text \<open>
  \<^verbatim>\<open>checkForDateBasedStatusChanges\<close> of src/scripts/check-notion-updates.mjs: one
  query of at most ten visible, upcoming records, true as soon as one of them is in
  the past, and true when the query fails.
\<close>

definition checkForDateBasedStatusChanges :: "clock \<Rightarrow> 'r notion_api \<Rightarrow> 'r \<Rightarrow> bool" where
  "checkForDateBasedStatusChanges clk api r =
     (case databases_query api r
             \<lparr>q_filter = Visible_and_Upcoming, q_sort_by_date = False,
              q_start_cursor = None, q_page_size = Some 10\<rparr> of
        Inl e \<Rightarrow> True
      | Inr resp \<Rightarrow> list_ex (isPastEvent clk) (results resp))"

text \<open>
  \<^verbatim>\<open>checkIfFetchNeeded\<close> of src/scripts/check-notion-updates.mjs. The date of the
  last sync is set to the start of its day before the comparison with the time the
  database was last edited.
\<close>

definition checkIfFetchNeeded ::
  "clock \<Rightarrow> 'r notion_api \<Rightarrow> 'r \<Rightarrow> filesystem \<Rightarrow> error + bool" where
  "checkIfFetchNeeded clk api r fs =
     (case readLastSyncTimestamp fs of
        Inl err \<Rightarrow> Inl err
      | Inr lastSyncTimestamp \<Rightarrow>
          (let databaseLastEdited = getDatabaseLastEditedTime api r
           in if \<not> present lastSyncTimestamp then Inr True
              else if \<not> present databaseLastEdited then Inr True
              else
                (let lastSyncDate = day_of clk (the lastSyncTimestamp);
                     dbEditedDate = Date_parse clk (the databaseLastEdited);
                     dbWasUpdated = date_lt lastSyncDate dbEditedDate;
                     hasDateBasedChanges = checkForDateBasedStatusChanges clk api r
                 in if \<not> dbWasUpdated \<and> \<not> hasDateBasedChanges then Inr False
                    else Inr True)))"

text \<open>
  \<^verbatim>\<open>checkIfFetchNeeded\<close> of src/unnamed/part_001: no scan of the upcoming records,
  and the two timestamps compared as they are.
\<close>

definition checkIfFetchNeeded_part_001 ::
  "clock \<Rightarrow> 'r notion_api \<Rightarrow> 'r \<Rightarrow> filesystem \<Rightarrow> error + bool" where
  "checkIfFetchNeeded_part_001 clk api r fs =
     (case readLastSyncTimestamp fs of
        Inl err \<Rightarrow> Inl err
      | Inr lastSyncTimestamp \<Rightarrow>
          (let databaseLastEdited = getDatabaseLastEditedTime api r
           in if \<not> present lastSyncTimestamp then Inr True
              else if \<not> present databaseLastEdited then Inr True
              else
                (let lastSyncDate = Date_parse clk (the lastSyncTimestamp);
                     dbEditedDate = Date_parse clk (the databaseLastEdited)
                 in if date_le dbEditedDate lastSyncDate then Inr False
                    else Inr True)))"

text \<open>
  The exit code of the checker: 0 when a fetch is needed, 1 to skip, and 0 when the
  check itself failed.
\<close>

definition check_exit_code :: "error + bool \<Rightarrow> nat" where
  "check_exit_code outcome =
     (case outcome of Inl e \<Rightarrow> 0 | Inr shouldFetch \<Rightarrow> (if shouldFetch then 0 else 1))"

section \<open>JSON text\<close>

text \<open>
  \<^verbatim>\<open>JSON.stringify(value)\<close>, \<^verbatim>\<open>JSON.stringify(value, null, 2)\<close> and
  \<^verbatim>\<open>JSON.parse(text)\<close> of the runtime, on the values above. A string is quoted with
  the escapes of the standard: two-character escapes for the quote, the backslash and
  the five named controls, \<^verbatim>\<open>\u00XX\<close> for the other characters below 0x20.
\<close>

definition hex_digit :: "nat \<Rightarrow> char" where
  "hex_digit k = (if k < 10 then char_of (48 + k) else char_of (87 + k))"

definition escape_char :: "char \<Rightarrow> string" where
  "escape_char c =
     (if c = CHR 0x22 then [CHR 0x5C, CHR 0x22]
      else if c = CHR 0x5C then [CHR 0x5C, CHR 0x5C]
      else if c = CHR 0x08 then [CHR 0x5C, CHR ''b'']
      else if c = CHR 0x0C then [CHR 0x5C, CHR ''f'']
      else if c = CHR 0x0A then [CHR 0x5C, CHR ''n'']
      else if c = CHR 0x0D then [CHR 0x5C, CHR ''r'']
      else if c = CHR 0x09 then [CHR 0x5C, CHR ''t'']
      else if (of_char c :: nat) < 32
        then [CHR 0x5C, CHR ''u'', CHR ''0'', CHR ''0'',
              hex_digit ((of_char c :: nat) div 16), hex_digit ((of_char c :: nat) mod 16)]
      else [c])"

definition quote :: "string \<Rightarrow> string" where
  "quote s = CHR 0x22 # concat (map escape_char s) @ [CHR 0x22]"

text \<open>
  A number in \<^verbatim>\<open>JSON.stringify\<close>: a finite number is printed as
  \<^verbatim>\<open>toString\<close> prints it, an infinity is written \<^verbatim>\<open>null\<close>.
\<close>

definition JSON_number :: "number \<Rightarrow> string" where
  "JSON_number n = (if n = Pos_infinity \<or> n = Neg_infinity then ''null'' else Number_toString n)"

text \<open>The compact form: no white space.\<close>

fun JSON_stringify :: "js \<Rightarrow> string"
  and stringify_elements :: "js list \<Rightarrow> string"
  and stringify_members :: "(string \<times> js) list \<Rightarrow> string"
where
  "JSON_stringify JNull = ''null''"
| "JSON_stringify (JBool b) = (if b then ''true'' else ''false'')"
| "JSON_stringify (JNum n) = JSON_number n"
| "JSON_stringify (JStr s) = quote s"
| "JSON_stringify (JArr xs) = ''['' @ stringify_elements xs @ '']''"
| "JSON_stringify (JObj kvs) = ''{'' @ stringify_members kvs @ ''}''"
| "stringify_elements [] = []"
| "stringify_elements [x] = JSON_stringify x"
| "stringify_elements (x # y # ys) = JSON_stringify x @ '','' @ stringify_elements (y # ys)"
| "stringify_members [] = []"
| "stringify_members [(k, v)] = quote k @ '':'' @ JSON_stringify v"
| "stringify_members ((k, v) # kv # kvs) =
     quote k @ '':'' @ JSON_stringify v @ '','' @ stringify_members (kv # kvs)"

text \<open>
  The form with an indentation of two spaces per level: every element and member on a
  line of its own, \<^verbatim>\<open>[]\<close> and \<^verbatim>\<open>{}\<close> for the empty array and object.
\<close>

definition indent :: "nat \<Rightarrow> string" where
  "indent level = CHR 0x0A # replicate (2 * level) (CHR '' '')"

fun stringify_pretty :: "nat \<Rightarrow> js \<Rightarrow> string"
  and pretty_elements :: "nat \<Rightarrow> js list \<Rightarrow> string"
  and pretty_members :: "nat \<Rightarrow> (string \<times> js) list \<Rightarrow> string"
where
  "stringify_pretty level JNull = ''null''"
| "stringify_pretty level (JBool b) = (if b then ''true'' else ''false'')"
| "stringify_pretty level (JNum n) = JSON_number n"
| "stringify_pretty level (JStr s) = quote s"
| "stringify_pretty level (JArr []) = ''[]''"
| "stringify_pretty level (JArr (x # xs)) =
     ''['' @ pretty_elements (Suc level) (x # xs) @ indent level @ '']''"
| "stringify_pretty level (JObj []) = ''{}''"
| "stringify_pretty level (JObj (kv # kvs)) =
     ''{'' @ pretty_members (Suc level) (kv # kvs) @ indent level @ ''}''"
| "pretty_elements level [] = []"
| "pretty_elements level [x] = indent level @ stringify_pretty level x"
| "pretty_elements level (x # y # ys) =
     indent level @ stringify_pretty level x @ '','' @ pretty_elements level (y # ys)"
| "pretty_members level [] = []"
| "pretty_members level [(k, v)] = indent level @ quote k @ '': '' @ stringify_pretty level v"
| "pretty_members level ((k, v) # kv # kvs) =
     indent level @ quote k @ '': '' @ stringify_pretty level v @ '',''
       @ pretty_members level (kv # kvs)"

definition JSON_stringify_indent2 :: "js \<Rightarrow> string" where
  "JSON_stringify_indent2 v = stringify_pretty 0 v"

text \<open>
  The parser. White space is skipped before every token, and every text that is not
  JSON is refused. An escape \<^verbatim>\<open>\uXXXX\<close> is decoded to the UTF-8 bytes of its
  code unit.
\<close>

definition json_ws :: "char \<Rightarrow> bool" where
  "json_ws c = (c = CHR '' '' \<or> c = CHR 0x0A \<or> c = CHR 0x0D \<or> c = CHR 0x09)"

definition skip_ws :: "string \<Rightarrow> string" where
  "skip_ws s = dropWhile json_ws s"

definition hex_val :: "char \<Rightarrow> nat option" where
  "hex_val c =
     (let n = (of_char c :: nat)
      in if 48 \<le> n \<and> n \<le> 57 then Some (n - 48)
         else if 97 \<le> n \<and> n \<le> 102 then Some (n - 87)
         else if 65 \<le> n \<and> n \<le> 70 then Some (n - 55)
         else None)"

definition utf8_encode :: "nat \<Rightarrow> string" where
  "utf8_encode u =
     (if u < 128 then [char_of u]
      else if u < 2048 then [char_of (192 + u div 64), char_of (128 + u mod 64)]
      else [char_of (224 + u div 4096), char_of (128 + (u div 64) mod 64),
            char_of (128 + u mod 64)])"

definition unescape :: "char \<Rightarrow> char option" where
  "unescape e =
     (if e = CHR 0x22 then Some (CHR 0x22)
      else if e = CHR 0x5C then Some (CHR 0x5C)
      else if e = CHR ''/'' then Some (CHR ''/'')
      else if e = CHR ''b'' then Some (CHR 0x08)
      else if e = CHR ''f'' then Some (CHR 0x0C)
      else if e = CHR ''n'' then Some (CHR 0x0A)
      else if e = CHR ''r'' then Some (CHR 0x0D)
      else if e = CHR ''t'' then Some (CHR 0x09)
      else None)"

definition prepend :: "string \<Rightarrow> (string \<times> string) option \<Rightarrow> (string \<times> string) option" where
  "prepend pre r = (case r of None \<Rightarrow> None | Some (s, rest) \<Rightarrow> Some (pre @ s, rest))"

text \<open>The characters of a string, after the opening quote, up to the closing one.\<close>

fun parse_chars :: "string \<Rightarrow> (string \<times> string) option" where
  "parse_chars [] = None"
| "parse_chars (c # cs) =
     (if c = CHR 0x22 then Some ([], cs)
      else if c = CHR 0x5C then
        (case cs of
           [] \<Rightarrow> None
         | e # es \<Rightarrow>
             (if e = CHR ''u'' then
                (case es of
                   h1 # h2 # h3 # h4 # rest \<Rightarrow>
                     (case (hex_val h1, hex_val h2, hex_val h3, hex_val h4) of
                        (Some a, Some b, Some c, Some d) \<Rightarrow>
                          prepend (utf8_encode (4096 * a + 256 * b + 16 * c + d)) (parse_chars rest)
                      | _ \<Rightarrow> None)
                 | _ \<Rightarrow> None)
              else (case unescape e of
                      None \<Rightarrow> None
                    | Some ch \<Rightarrow> prepend [ch] (parse_chars es))))
      else if (of_char c :: nat) < 32 then None
      else prepend [c] (parse_chars cs))"

definition parse_literal :: "string \<Rightarrow> (js \<times> string) option" where
  "parse_literal s =
     (if take 4 s = ''null'' then Some (JNull, drop 4 s)
      else if take 4 s = ''true'' then Some (JBool True, drop 4 s)
      else if take 5 s = ''false'' then Some (JBool False, drop 5 s)
      else (case parse_number s of
              None \<Rightarrow> None
            | Some (n, rest) \<Rightarrow> Some (JNum n, rest)))"

text \<open>
  Values, the elements of an array after its bracket, and the members of an object
  after its brace. The first argument bounds the number of nested calls; the length
  of the text is enough (\<open>JSON_parse\<close> below).
\<close>

fun parse_value :: "nat \<Rightarrow> string \<Rightarrow> (js \<times> string) option"
  and parse_elements :: "nat \<Rightarrow> string \<Rightarrow> (js list \<times> string) option"
  and parse_members :: "nat \<Rightarrow> string \<Rightarrow> ((string \<times> js) list \<times> string) option"
where
  "parse_value 0 s = None"
| "parse_value (Suc fuel) s =
     (case skip_ws s of
        [] \<Rightarrow> None
      | c # cs \<Rightarrow>
          (if c = CHR 0x22 then
             (case parse_chars cs of None \<Rightarrow> None | Some (str, rest) \<Rightarrow> Some (JStr str, rest))
           else if c = CHR ''['' then
             (case skip_ws cs of
                [] \<Rightarrow> None
              | d # ds \<Rightarrow>
                  (if d = CHR '']'' then Some (JArr [], ds)
                   else (case parse_elements fuel cs of
                           None \<Rightarrow> None
                         | Some (xs, rest) \<Rightarrow> Some (JArr xs, rest))))
           else if c = CHR ''{'' then
             (case skip_ws cs of
                [] \<Rightarrow> None
              | d # ds \<Rightarrow>
                  (if d = CHR ''}'' then Some (JObj [], ds)
                   else (case parse_members fuel cs of
                           None \<Rightarrow> None
                         | Some (kvs, rest) \<Rightarrow> Some (JObj (foldl (\<lambda>ob kv. obj_set ob (fst kv) (snd kv)) [] kvs), rest))))
           else parse_literal (c # cs)))"
| "parse_elements 0 s = None"
| "parse_elements (Suc fuel) s =
     (case parse_value fuel s of
        None \<Rightarrow> None
      | Some (x, rest) \<Rightarrow>
          (case skip_ws rest of
             [] \<Rightarrow> None
           | c # cs \<Rightarrow>
               (if c = CHR '','' then
                  (case parse_elements fuel cs of
                     None \<Rightarrow> None
                   | Some (xs, rest') \<Rightarrow> Some (x # xs, rest'))
                else if c = CHR '']'' then Some ([x], cs)
                else None)))"
| "parse_members 0 s = None"
| "parse_members (Suc fuel) s =
     (case skip_ws s of
        [] \<Rightarrow> None
      | q # qs \<Rightarrow>
          (if q \<noteq> CHR 0x22 then None
           else (case parse_chars qs of
                   None \<Rightarrow> None
                 | Some (k, rest) \<Rightarrow>
                     (case skip_ws rest of
                        [] \<Rightarrow> None
                      | c # cs \<Rightarrow>
                          (if c \<noteq> CHR '':'' then None
                           else (case parse_value fuel cs of
                                   None \<Rightarrow> None
                                 | Some (v, rest') \<Rightarrow>
                                     (case skip_ws rest' of
                                        [] \<Rightarrow> None
                                      | d # ds \<Rightarrow>
                                          (if d = CHR '','' then
                                             (case parse_members fuel ds of
                                                None \<Rightarrow> None
                                              | Some (kvs, rest'') \<Rightarrow> Some ((k, v) # kvs, rest''))
                                           else if d = CHR ''}'' then Some ([(k, v)], ds)
                                           else None))))))))"

text \<open>\<^verbatim>\<open>JSON.parse\<close>: one value, and nothing but white space after it.\<close>


definition JSON_parse :: "string \<Rightarrow> js option" where
  "JSON_parse text =
     (case parse_value (Suc (length text)) text of
        None \<Rightarrow> None
      | Some (v, rest) \<Rightarrow> (if skip_ws rest = [] then Some v else None))"

text \<open>
  The invariant of objects: in a value and in everything nested in it, the keys of an
  object are pairwise distinct.
\<close>

fun distinct_keys :: "js \<Rightarrow> bool"
  and distinct_keys_elements :: "js list \<Rightarrow> bool"
  and distinct_keys_members :: "(string \<times> js) list \<Rightarrow> bool"
where
  "distinct_keys (JArr xs) = distinct_keys_elements xs"
| "distinct_keys (JObj kvs) = (distinct (map fst kvs) \<and> distinct_keys_members kvs)"
| "distinct_keys JNull = True"
| "distinct_keys (JBool b) = True"
| "distinct_keys (JNum n) = True"
| "distinct_keys (JStr s) = True"
| "distinct_keys_elements [] = True"
| "distinct_keys_elements (x # xs) = (distinct_keys x \<and> distinct_keys_elements xs)"
| "distinct_keys_members [] = True"
| "distinct_keys_members (kv # kvs) = (distinct_keys (snd kv) \<and> distinct_keys_members kvs)"

text \<open>The numbers in a value, at any depth.\<close>

fun numbers_of :: "js \<Rightarrow> number list"
  and numbers_of_elements :: "js list \<Rightarrow> number list"
  and numbers_of_members :: "(string \<times> js) list \<Rightarrow> number list"
where
  "numbers_of (JNum n) = [n]"
| "numbers_of (JArr xs) = numbers_of_elements xs"
| "numbers_of (JObj kvs) = numbers_of_members kvs"
| "numbers_of JNull = []"
| "numbers_of (JBool b) = []"
| "numbers_of (JStr s) = []"
| "numbers_of_elements [] = []"
| "numbers_of_elements (x # xs) = numbers_of x @ numbers_of_elements xs"
| "numbers_of_members [] = []"
| "numbers_of_members (kv # kvs) = numbers_of (snd kv) @ numbers_of_members kvs"

text \<open>
  The value that a reader of the printed text sees. Both printers write the negative
  zero as \<^verbatim>\<open>0\<close> and an infinity as \<^verbatim>\<open>null\<close>; everything else is read as it
  was.
\<close>

definition as_json_number :: "number \<Rightarrow> js" where
  "as_json_number n =
     (if n = Neg_zero then JNum (Dec 0 0)
      else if n = Pos_infinity \<or> n = Neg_infinity then JNull
      else JNum n)"

fun as_json :: "js \<Rightarrow> js"
  and as_json_elements :: "js list \<Rightarrow> js list"
  and as_json_members :: "(string \<times> js) list \<Rightarrow> (string \<times> js) list"
where
  "as_json (JNum n) = as_json_number n"
| "as_json (JArr xs) = JArr (as_json_elements xs)"
| "as_json (JObj kvs) = JObj (as_json_members kvs)"
| "as_json JNull = JNull"
| "as_json (JBool b) = JBool b"
| "as_json (JStr s) = JStr s"
| "as_json_elements [] = []"
| "as_json_elements (x # xs) = as_json x # as_json_elements xs"
| "as_json_members [] = []"
| "as_json_members (kv # kvs) = (fst kv, as_json (snd kv)) # as_json_members kvs"

text \<open>A finite double other than the negative zero: a number that is read as it was.\<close>

definition plain_Number :: "number \<Rightarrow> bool" where
  "plain_Number n = (case n of Dec m e \<Rightarrow> is_Number n | _ \<Rightarrow> False)"

text \<open>
  The characters a printed value can start with: no white space, no closing bracket
  and no comma.
\<close>

definition value_start :: "char \<Rightarrow> bool" where
  "value_start c =
     (\<not> json_ws c \<and> c \<noteq> CHR '']'' \<and> c \<noteq> CHR ''}'' \<and> c \<noteq> CHR '','')"

section \<open>Change detector and orchestrator\<close>

text \<open>
  The digest function \<^verbatim>\<open>createHash("sha256").update(content).digest("hex")\<close> is a
  parameter \<open>sha256_hex\<close>. The array of events is the value that is serialised.
\<close>

definition events_value :: "event list \<Rightarrow> js" where
  "events_value events = JArr (map JObj events)"

definition computeEventsHash :: "(string \<Rightarrow> string) \<Rightarrow> js \<Rightarrow> string" where
  "computeEventsHash sha256_hex events = sha256_hex (JSON_stringify events)"

text \<open>
  \<^verbatim>\<open>getExistingEventsHash\<close>: read the artifact, parse it, hash it; in the
  \<^verbatim>\<open>catch\<close>, an error with code \<^verbatim>\<open>ENOENT\<close> gives \<open>null\<close> and any other error
  is thrown again.
\<close>

definition getExistingEventsHash :: "(string \<Rightarrow> string) \<Rightarrow> filesystem \<Rightarrow> error + string option" where
  "getExistingEventsHash sha256_hex fs =
     (case (case readFile fs ''public/events.json'' of
              Inl err \<Rightarrow> Inl err
            | Inr content \<Rightarrow>
                (case JSON_parse content of
                   None \<Rightarrow> Inl SyntaxError
                 | Some events \<Rightarrow> Inr (computeEventsHash sha256_hex events))) of
        Inr digest \<Rightarrow> Inr (Some digest)
      | Inl err \<Rightarrow> (if err = Errno ''ENOENT'' then Inr None else Inl err))"

text \<open>\<^verbatim>\<open>mkdir(publicDir, { recursive: true })\<close>, an \<^verbatim>\<open>EEXIST\<close> error ignored.\<close>

definition ensure_dir :: "filesystem \<Rightarrow> string \<Rightarrow> error + filesystem" where
  "ensure_dir fs path =
     (case fs path of
        Denied code \<Rightarrow> (if code \<noteq> ''EEXIST'' then Inl (Errno code) else Inr fs)
      | _ \<Rightarrow> Inr fs)"

text \<open>\<^verbatim>\<open>if (databaseLastEdited) await writeLastSyncTimestamp(databaseLastEdited)\<close>.\<close>

definition record_checkpoint :: "filesystem \<Rightarrow> string option \<Rightarrow> error + filesystem \<times> string list" where
  "record_checkpoint fs databaseLastEdited =
     (case databaseLastEdited of
        None \<Rightarrow> Inr (fs, [])
      | Some ts \<Rightarrow>
          (if ts = [] then Inr (fs, [])
           else (case writeFile fs ''.last-sync'' ts of
                   Inl err \<Rightarrow> Inl err
                 | Inr fs' \<Rightarrow> Inr (fs', [''.last-sync'']))))"

text \<open>
  The outcome of a run: the exit code of the process, the files after it, and the
  paths it wrote, in order.
\<close>

record run_result =
  exit_code :: nat
  files :: filesystem
  written :: "string list"

text \<open>
  The end of \<^verbatim>\<open>fetchAndWriteEvents\<close>, from the computation of the new hash on (the
  same in both copies). Every error is caught by the \<^verbatim>\<open>catch\<close> of the function,
  which exits with code 1.
\<close>

definition publish_if_changed ::
  "(string \<Rightarrow> string) \<Rightarrow> filesystem \<Rightarrow> event list \<Rightarrow> string option \<Rightarrow> run_result" where
  "publish_if_changed sha256_hex fs valid databaseLastEdited =
     (let newHash = computeEventsHash sha256_hex (events_value valid)
      in case getExistingEventsHash sha256_hex fs of
           Inl err \<Rightarrow> \<lparr>exit_code = 1, files = fs, written = []\<rparr>
         | Inr existingHash \<Rightarrow>
             (if present existingHash \<and> Some newHash = existingHash then
                (case record_checkpoint fs databaseLastEdited of
                   Inl err \<Rightarrow> \<lparr>exit_code = 1, files = fs, written = []\<rparr>
                 | Inr (fs', ws) \<Rightarrow> \<lparr>exit_code = 0, files = fs', written = ws\<rparr>)
              else
                (case ensure_dir fs ''public'' of
                   Inl err \<Rightarrow> \<lparr>exit_code = 1, files = fs, written = []\<rparr>
                 | Inr fs1 \<Rightarrow>
                     (case writeFile fs1 ''public/events.json''
                             (JSON_stringify_indent2 (events_value valid)) of
                        Inl err \<Rightarrow> \<lparr>exit_code = 1, files = fs1, written = []\<rparr>
                      | Inr fs2 \<Rightarrow>
                          (case record_checkpoint fs2 databaseLastEdited of
                             Inl err \<Rightarrow>
                               \<lparr>exit_code = 1, files = fs2, written = [''public/events.json'']\<rparr>
                           | Inr (fs3, ws) \<Rightarrow>
                               \<lparr>exit_code = 0, files = fs3,
                                written = ''public/events.json'' # ws\<rparr>)))))"

text \<open>\<^verbatim>\<open>response.results.map(...)\<close> with a callback that may throw.\<close>

fun map_result :: "('a \<Rightarrow> error + 'b) \<Rightarrow> 'a list \<Rightarrow> error + 'b list" where
  "map_result f [] = Inr []"
| "map_result f (x # xs) =
     (case f x of
        Inl err \<Rightarrow> Inl err
      | Inr y \<Rightarrow> (case map_result f xs of Inl err \<Rightarrow> Inl err | Inr ys \<Rightarrow> Inr (y # ys)))"

record 'r sync_run =
  outcome :: run_result
  status_calls :: "update_call list"
  store_final :: 'r

text \<open>
  \<^verbatim>\<open>fetchAndWriteEvents\<close> of src/unnamed/part_000: update the statuses, read the
  last-edited time, query the visible records, map them, drop the events without a
  name or a date, and publish if the content changed. (The pause after a status
  update is a matter of time only.)
\<close>

definition fetchAndWriteEvents ::
  "(string \<Rightarrow> string) \<Rightarrow> (js \<Rightarrow> string option) \<Rightarrow> clock \<Rightarrow> 'r notion_api \<Rightarrow> 'r \<Rightarrow> filesystem
   \<Rightarrow> 'r sync_run option" where
  "fetchAndWriteEvents sha256_hex fmt clk api r fs =
     (case updateEventStatusesInNotion clk api r of
        None \<Rightarrow> None
      | Some st \<Rightarrow>
          (let r1 = store_after st;
               databaseLastEdited = getDatabaseLastEditedTime api r1
           in Some \<lparr>outcome =
                      (case queryVisibleEvents api r1 of
                         Inl err \<Rightarrow> \<lparr>exit_code = 1, files = fs, written = []\<rparr>
                       | Inr pages \<Rightarrow>
                           (case map_result (mapEvent fmt) pages of
                              Inl err \<Rightarrow> \<lparr>exit_code = 1, files = fs, written = []\<rparr>
                            | Inr events \<Rightarrow>
                                publish_if_changed sha256_hex fs (validEvents events)
                                  databaseLastEdited)),
                    status_calls = calls st, store_final = r1\<rparr>))"

text \<open>\<^verbatim>\<open>fetchAndWriteEvents\<close> of src/scripts/fetch-events-from-notion.mjs.\<close>

definition fetchAndWriteEvents_scripts ::
  "(string \<Rightarrow> string) \<Rightarrow> (js \<Rightarrow> string option) \<Rightarrow> 'r notion_api \<Rightarrow> 'r \<Rightarrow> filesystem \<Rightarrow> run_result" where
  "fetchAndWriteEvents_scripts sha256_hex fmt api r fs =
     (let databaseLastEdited = getDatabaseLastEditedTime api r
      in case queryVisibleEvents api r of
           Inl err \<Rightarrow> \<lparr>exit_code = 1, files = fs, written = []\<rparr>
         | Inr pages \<Rightarrow>
             (case map_result (mapEvent_scripts fmt) pages of
                Inl err \<Rightarrow> \<lparr>exit_code = 1, files = fs, written = []\<rparr>
              | Inr events \<Rightarrow>
                  publish_if_changed sha256_hex fs (validEvents events) databaseLastEdited))"

text \<open>A path can be written: no system call on it fails.\<close>

definition writable :: "filesystem \<Rightarrow> string \<Rightarrow> bool" where
  "writable fs path = (case fs path of Denied code \<Rightarrow> False | _ \<Rightarrow> True)"

text \<open>
  A stand-in for the digest function, for evaluation only: never empty, and different
  on different texts.
\<close>

definition toy_digest :: "string \<Rightarrow> string" where
  "toy_digest content = ''digest-of:'' @ content"

text \<open>The invariant of objects, for an event.\<close>

definition distinct_event :: "event \<Rightarrow> bool" where
  "distinct_event ev = distinct_keys (JObj ev)"

section \<open>Verified properties\<close>

subsection \<open>Property extractor\<close>

lemma joined_or_null_not_object: "\<not> is_object (joined_or_null t)"
  by (simp add: joined_or_null_def js_or_def split: option.splits)

lemma str_or_null_not_object: "\<not> is_object (str_or_null t)"
  by (simp add: str_or_null_def js_or_def split: option.splits)

lemma extractPropertyValue_not_object: "\<not> is_object (extractPropertyValue p)"
  by (induction p rule: extractPropertyValue.induct)
     (simp_all add: joined_or_null_not_object str_or_null_not_object date_start_or_null_def
        num_or_null_def strs_or_empty_def extractFormula_def js_or_def
        split: option.splits formula.splits)

lemma rollup_item_uniform:
  "(case item of PTitle t \<Rightarrow> joined_or_null t | _ \<Rightarrow> extractPropertyValue item)
   = extractPropertyValue item"
  by (cases item) simp_all

text \<open>
  C10. \<^verbatim>\<open>extractPropertyValue\<close> is a total function on typed fields: its recursion
  is the structural one through the items of a rollup array (the termination proof of
  the definition), at any nesting depth. It returns \<open>null\<close>, a scalar or an array,
  never a bare object; an unrecognised tag and a field without a tag give \<open>null\<close>;
  and a rollup array is the array of the extracted items with the \<open>null\<close> results
  dropped, the inline treatment of title items agreeing with the recursive call.
\<close>

theorem extractPropertyValue_total_C10:
  "(\<exists>v. extractPropertyValue p = v \<and> \<not> is_object v)
   \<and> extractPropertyValue (PUnknown tag) = JNull
   \<and> extractPropertyValue PUntagged = JNull
   \<and> extractPropertyValue (PRollup (Some items) n)
       = JArr (filter (\<lambda>v. v \<noteq> JNull) (map extractPropertyValue items))"
  by (simp add: extractPropertyValue_not_object rollup_item_uniform)

subsection \<open>Record mapper\<close>

lemma obj_keys_set: "obj_keys (obj_set ev k v) = insert k (obj_keys ev)"
  by (induction ev k v rule: obj_set.induct) (auto simp: obj_keys_def)

lemma obj_keys_delete: "obj_keys (obj_delete ev k) = obj_keys ev - {k}"
  by (auto simp: obj_keys_def obj_delete_def)

lemma collect_property_keys:
  "obj_keys (collect_property ex ev kp) \<subseteq> obj_keys ev \<union> ({fst kp} - set ex)"
  by (auto simp: collect_property_def Let_def obj_keys_set)

lemma foldl_collect_property_keys:
  "obj_keys (foldl (collect_property ex) ev kps) \<subseteq> obj_keys ev \<union> (fst ` set kps - set ex)"
proof (induction kps arbitrary: ev)
  case Nil
  then show ?case by simp
next
  case (Cons kp kps)
  have "obj_keys (foldl (collect_property ex) (collect_property ex ev kp) kps)
        \<subseteq> obj_keys (collect_property ex ev kp) \<union> (fst ` set kps - set ex)"
    by (rule Cons.IH)
  with collect_property_keys [of ex ev kp] show ?case by auto
qed

lemma add_datePretty_keys:
  "add_datePretty fmt ev = Inr ev' \<Longrightarrow> obj_keys ev' \<subseteq> insert ''datePretty'' (obj_keys ev)"
  by (auto simp: add_datePretty_def obj_keys_set split: option.splits if_splits sum.splits)

text \<open>
  The mapper of src/unnamed/part_000 never emits one of its four excluded keys:
  whenever it returns an event, the event has none of them.
\<close>

lemma mapEvent_excludes:
  assumes "mapEvent fmt pg = Inr ev"
  shows "obj_keys ev \<inter> set excludedProperties = {}"
proof -
  let ?e0 = "foldl (collect_property excludedProperties) [] (properties pg)"
  let ?e3 = "obj_delete (obj_delete (obj_delete ?e0 ''Place Name'') ''Place Link'') ''Place''"
  from assms have "add_datePretty fmt ?e3 = Inr ev"
    by (simp add: mapEvent_def Let_def)
  then have "obj_keys ev \<subseteq> insert ''datePretty'' (obj_keys ?e3)"
    by (rule add_datePretty_keys)
  moreover have "obj_keys ?e3 \<subseteq> obj_keys ?e0"
    by (auto simp: obj_keys_delete)
  moreover have "obj_keys ?e0 \<subseteq> obj_keys [] \<union> (fst ` set (properties pg) - set excludedProperties)"
    by (rule foldl_collect_property_keys)
  moreover have "obj_keys [] = {}"
    by (simp add: obj_keys_def)
  moreover have "''datePretty'' \<notin> set excludedProperties"
    by (simp add: excludedProperties_def)
  ultimately show ?thesis by auto
qed

text \<open>
  C1. The mapper of src/scripts/fetch-events-from-notion.mjs excludes only
  \<^verbatim>\<open>Location\<close> and \<^verbatim>\<open>Visible on site\<close> and has no deletion afterwards: on a record
  with a title and a venue name it returns an event that contains the key
  \<^verbatim>\<open>Place Name\<close>, one of the four keys that must never be published.
\<close>

theorem mapEvent_scripts_leaks_place_C1:
  "mapEvent_scripts no_format
     \<lparr>page_id = ''p1'',
      properties = [(''Name'', PTitle (Some [''Meetup''])),
                    (''Place Name'', PRichText (Some [''Secret Bar'']))]\<rparr>
   = Inr [(''Name'', JStr ''Meetup''), (''Place Name'', JStr ''Secret Bar'')]"
  by (simp add: mapEvent_scripts_def collect_property_def excludedProperties_scripts_def
      joined_or_null_def js_or_def add_datePretty_def no_format_def)

subsection \<open>Dropping events without a name or a date\<close>

lemma prop_truthy_key: "prop_truthy ev k \<Longrightarrow> k \<in> obj_keys ev"
  by (auto simp: prop_truthy_def obj_keys_def split: option.splits dest: map_of_SomeD
      intro: rev_image_eqI)

text \<open>
  C2, as stated, fails: the filter tests the values for truthiness, so a mapped event
  whose \<^verbatim>\<open>Name\<close> holds \<open>false\<close> (an unchecked checkbox) has a name field and a
  date field and is dropped all the same.
\<close>

theorem validEvents_falsy_name_C2_counterexample:
  "mapEvent (fixed_format ''1 Jan 2025, 19:00'')
     \<lparr>page_id = ''p1'',
      properties = [(''Name'', PCheckbox False),
                    (''Date'', PDate (Some (Date_value ''2025-01-01'' None)))]\<rparr>
     = Inr [(''Name'', JBool False), (''Date'', JStr ''2025-01-01''),
            (''datePretty'', JStr ''1 Jan 2025 19:00'')]
   \<and> has_name_field [(''Name'', JBool False), (''Date'', JStr ''2025-01-01''),
            (''datePretty'', JStr ''1 Jan 2025 19:00'')]
   \<and> has_date_field [(''Name'', JBool False), (''Date'', JStr ''2025-01-01''),
            (''datePretty'', JStr ''1 Jan 2025 19:00'')]
   \<and> [(''Name'', JBool False), (''Date'', JStr ''2025-01-01''),
            (''datePretty'', JStr ''1 Jan 2025 19:00'')]
       \<notin> set (validEvents [[(''Name'', JBool False), (''Date'', JStr ''2025-01-01''),
            (''datePretty'', JStr ''1 Jan 2025 19:00'')]])"
  by (simp add: mapEvent_def collect_property_def excludedProperties_def obj_delete_def
      js_or_def date_start_or_null_def str_or_null_def add_datePretty_def
      formatDatePretty_def prop_truthy_def has_name_field_def has_date_field_def
      obj_keys_def validEvents_def isValidEvent_def fixed_format_def)

text \<open>
  C2, amended. An event is in the published collection exactly when it is among the
  mapped events and its name field (\<^verbatim>\<open>Name\<close> or \<^verbatim>\<open>name\<close>) and its date field
  (\<^verbatim>\<open>Date\<close> or \<^verbatim>\<open>date\<close>) each hold a truthy value; an event that lacks a name
  field or a date field is absent from it.
\<close>

theorem validEvents_iff_C2:
  "(ev \<in> set (validEvents events) \<longleftrightarrow>
      ev \<in> set events
      \<and> (prop_truthy ev ''Name'' \<or> prop_truthy ev ''name'')
      \<and> (prop_truthy ev ''Date'' \<or> prop_truthy ev ''date''))
   \<and> (\<not> has_name_field ev \<or> \<not> has_date_field ev \<longrightarrow> ev \<notin> set (validEvents events))"
  by (auto simp: validEvents_def isValidEvent_def has_name_field_def has_date_field_def
      dest: prop_truthy_key)

theorem validEvents_iff_C2_witness:
  "[(''Name'', JStr ''A''), (''Date'', JStr ''2099-01-01'')]
     \<in> set (validEvents [[(''Name'', JStr ''A''), (''Date'', JStr ''2099-01-01'')],
                          [(''Name'', JStr ''B'')]])
   \<and> \<not> has_date_field [(''Name'', JStr ''B'')]
   \<and> [(''Name'', JStr ''B'')]
     \<notin> set (validEvents [[(''Name'', JStr ''A''), (''Date'', JStr ''2099-01-01'')],
                          [(''Name'', JStr ''B'')]])"
  using validEvents_iff_C2 [of "[(''Name'', JStr ''A''), (''Date'', JStr ''2099-01-01'')]"
      "[[(''Name'', JStr ''A''), (''Date'', JStr ''2099-01-01'')], [(''Name'', JStr ''B'')]]"]
    validEvents_iff_C2 [of "[(''Name'', JStr ''B'')]"
      "[[(''Name'', JStr ''A''), (''Date'', JStr ''2099-01-01'')], [(''Name'', JStr ''B'')]]"]
  by (simp add: prop_truthy_def has_date_field_def obj_keys_def)

subsection \<open>Pagination\<close>

lemma fetchAllPages_serve_from:
  "i < length pgs \<Longrightarrow>
   fetchAllPages (\<lambda>c. Inr (serve_pages pgs c)) (Some i) acc
   = Some (Inr (acc @ concat (drop i pgs)))"
proof (induction "length pgs - i" arbitrary: i acc)
  case 0
  then show ?case by simp
next
  case (Suc n)
  show ?case
  proof (cases "Suc i < length pgs")
    case True
    have "n = length pgs - Suc i" using Suc.hyps(2) by simp
    from Suc.hyps(1) [OF this True]
    have ih: "fetchAllPages (\<lambda>c. Inr (serve_pages pgs c)) (Some (Suc i)) (acc @ pgs ! i)
              = Some (Inr ((acc @ pgs ! i) @ concat (drop (Suc i) pgs)))" .
    have "drop i pgs = pgs ! i # drop (Suc i) pgs"
      using Suc.prems by (simp add: Cons_nth_drop_Suc)
    with True Suc.prems ih show ?thesis
      by (subst fetchAllPages.simps) (simp add: serve_pages_def)
  next
    case False
    with Suc.prems have "Suc i = length pgs" by simp
    then have "drop i pgs = [pgs ! i]"
      by (metis Cons_nth_drop_Suc Suc.prems drop_all order_refl)
    with False Suc.prems show ?thesis
      by (subst fetchAllPages.simps) (simp add: serve_pages_def)
  qed
qed

text \<open>
  The loop of the status updater retrieves every record of a store that answers in any
  finite number of pages: it returns, and its result is all the pages in order.
\<close>

lemma fetchAllPages_complete:
  "fetchAllPages (\<lambda>c. Inr (serve_pages pgs c)) None [] = Some (Inr (concat pgs))"
proof (cases pgs)
  case Nil
  then show ?thesis by (subst fetchAllPages.simps) (simp add: serve_pages_def)
next
  case outer: (Cons p ps)
  show ?thesis
  proof (cases ps)
    case Nil
    with outer show ?thesis by (subst fetchAllPages.simps) (simp add: serve_pages_def)
  next
    case (Cons p' ps')
    have "fetchAllPages (\<lambda>c. Inr (serve_pages pgs c)) (Some 1) ([] @ p)
          = Some (Inr (([] @ p) @ concat (drop 1 pgs)))"
      using outer Cons by (intro fetchAllPages_serve_from) simp
    with outer Cons show ?thesis
      by (subst fetchAllPages.simps) (simp add: serve_pages_def)
  qed
qed

lemma upcoming_query_paged_store:
  "upcoming_query (paged_store failing) pgs = (\<lambda>c. Inr (serve_pages pgs c))"
  by (simp add: upcoming_query_def paged_store_def fun_eq_iff)

text \<open>
  C8. The status updater follows the cursor, the main query of the run does not: on a
  store that answers the visible records in two pages, \<^verbatim>\<open>fetchAndWriteEvents\<close> reads
  \<^verbatim>\<open>response.results\<close> of a single call and gets the first page only, where the
  loop of the status updater gets both.
\<close>

theorem queryVisibleEvents_first_page_only_C8:
  "queryVisibleEvents (paged_store [])
     [[\<lparr>page_id = ''a'', properties = []\<rparr>], [\<lparr>page_id = ''b'', properties = []\<rparr>]]
     = Inr [\<lparr>page_id = ''a'', properties = []\<rparr>]
   \<and> fetchAllPages (upcoming_query (paged_store [])
        [[\<lparr>page_id = ''a'', properties = []\<rparr>], [\<lparr>page_id = ''b'', properties = []\<rparr>]]) None []
     = Some (Inr [\<lparr>page_id = ''a'', properties = []\<rparr>, \<lparr>page_id = ''b'', properties = []\<rparr>])"
proof
  show "queryVisibleEvents (paged_store [])
     [[\<lparr>page_id = ''a'', properties = []\<rparr>], [\<lparr>page_id = ''b'', properties = []\<rparr>]]
     = Inr [\<lparr>page_id = ''a'', properties = []\<rparr>]"
    by (simp add: queryVisibleEvents_def paged_store_def serve_pages_def)
  show "fetchAllPages (upcoming_query (paged_store [])
        [[\<lparr>page_id = ''a'', properties = []\<rparr>], [\<lparr>page_id = ''b'', properties = []\<rparr>]]) None []
     = Some (Inr [\<lparr>page_id = ''a'', properties = []\<rparr>, \<lparr>page_id = ''b'', properties = []\<rparr>])"
    by (simp add: upcoming_query_paged_store fetchAllPages_complete)
qed

subsection \<open>Status reconciliation\<close>

lemma filter_same_key_distinct:
  "distinct (map f xs) \<Longrightarrow> x \<in> set xs \<Longrightarrow> filter (\<lambda>y. f y = f x) xs = [x]"
proof (induction xs)
  case Nil
  then show ?case by simp
next
  case (Cons y ys)
  show ?case
  proof (cases "x = y")
    case True
    with Cons.prems(1) have "filter (\<lambda>z. f z = f x) ys = []"
      by (auto simp: filter_empty_conv) (metis imageI)
    with True show ?thesis by simp
  next
    case False
    with Cons.prems have "x \<in> set ys" and "f y \<noteq> f x" by auto
    with Cons show ?thesis by simp
  qed
qed

lemma calls_for_page:
  assumes "distinct (map page_id allPages)" and "pg \<in> set allPages"
  shows "filter (\<lambda>c. target c = page_id pg) (map past_call (filter P allPages))
         = (if P pg then [past_call pg] else [])"
proof -
  have "filter (\<lambda>c. target c = page_id pg) (map past_call (filter P allPages))
        = map past_call (filter P (filter (\<lambda>p. page_id p = page_id pg) allPages))"
    by (simp add: filter_map o_def past_call_def conj_commute)
  also have "filter (\<lambda>p. page_id p = page_id pg) allPages = [pg]"
    using assms by (rule filter_same_key_distinct)
  finally show ?thesis by simp
qed

lemma updateEventStatusesInNotion_calls:
  "fetchAllPages (upcoming_query api r) None [] = Some (Inr allPages) \<Longrightarrow>
   \<exists>run. updateEventStatusesInNotion clk api r = Some run
     \<and> calls run = map past_call (filter (isPastEvent clk) allPages)"
  by (simp add: updateEventStatusesInNotion_def Let_def)

text \<open>
  What the loop does with one record: let the query for the visible, upcoming records
  return \<open>allPages\<close>, each record once, and let \<open>pg\<close> be one of them, with a date
  that the runtime reads as the time \<open>t\<close>. Exactly one update call targets \<open>pg\<close>,
  setting the status to \<^verbatim>\<open>Past\<close>, if the start of the local day of \<open>t\<close> is
  strictly before the start of today; otherwise no update call targets \<open>pg\<close>.
\<close>

lemma updateEventStatusesInNotion_one_call:
  assumes "fetchAllPages (upcoming_query api r) None [] = Some (Inr allPages)"
    and "distinct (map page_id allPages)"
    and "pg \<in> set allPages"
    and "dateProp pg = Some (PDate (Some d))"
    and "Date_parse clk (start d) = Some t"
  shows "\<exists>run. updateEventStatusesInNotion clk api r = Some run
     \<and> (start_of_day clk t < start_of_day clk (now_ms clk) \<longrightarrow>
          filter (\<lambda>c. target c = page_id pg) (calls run)
          = [\<lparr>target = page_id pg, new_status = ''Past''\<rparr>])
     \<and> (\<not> start_of_day clk t < start_of_day clk (now_ms clk) \<longrightarrow>
          filter (\<lambda>c. target c = page_id pg) (calls run) = [])"
proof -
  from updateEventStatusesInNotion_calls [OF assms(1)]
  obtain run where run: "updateEventStatusesInNotion clk api r = Some run"
    and cs: "calls run = map past_call (filter (isPastEvent clk) allPages)"
    by blast
  have past: "isPastEvent clk pg \<longleftrightarrow> start_of_day clk t < start_of_day clk (now_ms clk)"
    using assms(4,5) by (simp add: isPastEvent_def day_of_def today_def date_lt_def)
  have "filter (\<lambda>c. target c = page_id pg) (calls run)
        = (if isPastEvent clk pg then [past_call pg] else [])"
    unfolding cs using assms(2,3) by (rule calls_for_page)
  with run past show ?thesis by (simp add: past_call_def)
qed

lemma fetchAllPages_paged_store:
  "fetchAllPages (upcoming_query (paged_store failing) pgs) None [] = Some (Inr (concat pgs))"
  by (simp add: upcoming_query_paged_store fetchAllPages_complete)

lemma updateEventStatusesInNotion_paged_store:
  "updateEventStatusesInNotion clk (paged_store failing) pgs
   = (let cs = map past_call (filter (isPastEvent clk) (concat pgs));
          fired = fire_updates (paged_store failing) pgs cs;
          n = length (filter (\<lambda>outcome. outcome = None) (fst fired))
      in Some \<lparr>returned = JBool (0 < n), calls = cs, outcomes = fst fired,
               updatedCount = n, store_after = snd fired\<rparr>)"
  by (simp add: updateEventStatusesInNotion_def fetchAllPages_paged_store)

lemmas example_eval =
  upcoming_page_def example_clock_def fixed_offset_clock_def isPastEvent_def dateProp_def
  day_of_def today_def date_lt_def past_call_def

text \<open>
  The date-only form is read as a multiple of a day: midnight UTC.
\<close>

lemma parse_date_only_midnight: "parse_date_only s = Some t \<Longrightarrow> t mod 86400000 = 0"
  by (auto simp: parse_date_only_def Let_def split: if_splits)

text \<open>
  In a time zone west of UTC, midnight UTC of a day is an hour of the evening before:
  the start of its local day is the local midnight of the day before. So a record with
  a date-only date gets its update call on the local day of its date already, from the
  first moment of that day on.
\<close>

lemma updateEventStatusesInNotion_west_of_UTC:
  assumes "fetchAllPages (upcoming_query api r) None [] = Some (Inr allPages)"
    and "distinct (map page_id allPages)"
    and "pg \<in> set allPages"
    and "dateProp pg = Some (PDate (Some d))"
    and "parse_date_only (start d) = Some t"
    and "- 86400000 < offset" and "offset < 0"
    and "t - offset \<le> now" and "now < t - offset + 86400000"
  shows "\<exists>run. updateEventStatusesInNotion (zone_clock other offset now) api r = Some run
     \<and> today (zone_clock other offset now) = Some (t - offset)
     \<and> filter (\<lambda>c. target c = page_id pg) (calls run)
       = [\<lparr>target = page_id pg, new_status = ''Past''\<rparr>]"
proof -
  let ?clk = "zone_clock other offset now"
  have p: "Date_parse ?clk (start d) = Some t"
    using assms(5) by (simp add: zone_clock_def)
  from assms(5) have m: "t mod 86400000 = 0" by (rule parse_date_only_midnight)
  then have "86400000 dvd t" by (simp add: mod_eq_0_iff_dvd)
  then obtain q where q: "t = q * 86400000" by (auto elim: dvdE)
  have "(t + offset) mod 86400000 = (offset + 86400000 + (q - 1) * 86400000) mod 86400000"
    by (simp add: q algebra_simps)
  also have "\<dots> = (offset + 86400000) mod 86400000"
    by (simp only: mod_mult_self1)
  also have "\<dots> = offset + 86400000"
    using assms(6,7) by (intro mod_pos_pos_trivial) simp_all
  finally have sd: "start_of_day ?clk t = t - offset - 86400000"
    by (simp add: zone_clock_def)
  have "(now + offset) mod 86400000 = (now + offset - t + q * 86400000) mod 86400000"
    by (simp add: q)
  also have "\<dots> = (now + offset - t) mod 86400000"
    by (simp only: mod_mult_self1)
  also have "\<dots> = now + offset - t"
    using assms(8,9) by (intro mod_pos_pos_trivial) simp_all
  finally have td: "start_of_day ?clk (now_ms ?clk) = t - offset"
    by (simp add: zone_clock_def)
  from updateEventStatusesInNotion_one_call [OF assms(1,2,3,4) p]
  show ?thesis
    by (auto simp: sd td today_def)
qed

text \<open>
  C6 fails on the code for a record dated today. At 10:00 on 10 January 2025 in a time
  zone five hours west of UTC, with one visible upcoming record whose date is
  \<^verbatim>\<open>2025-01-10\<close>: today is the local midnight of 10 January, the date of the
  record is today, and the function calls the remote store to set the record to
  \<^verbatim>\<open>Past\<close>, and counts one update. The runtime reads the date alone as midnight UTC,
  which is 19:00 of 9 January there, and \<^verbatim>\<open>setHours(0, 0, 0, 0)\<close> takes it to the
  local midnight of 9 January.
\<close>

theorem updateEventStatusesInNotion_today_marked_past_C6:
  "now_ms (zone_clock other (- 18000000) 1736521200000)
     = local_midnight (- 18000000) 2025 1 10 + 10 * 3600000
   \<and> today (zone_clock other (- 18000000) 1736521200000)
     = Some (local_midnight (- 18000000) 2025 1 10)
   \<and> day_of (zone_clock other (- 18000000) 1736521200000) ''2025-01-10''
     = Some (local_midnight (- 18000000) 2025 1 9)
   \<and> map_option (\<lambda>run. (calls run, updatedCount run))
       (updateEventStatusesInNotion (zone_clock other (- 18000000) 1736521200000) (paged_store [])
          [[upcoming_page ''a'' ''Meetup'' ''2025-01-10'']])
     = Some ([\<lparr>target = ''a'', new_status = ''Past''\<rparr>], 1)"
proof -
  let ?clk = "zone_clock other (- 18000000) 1736521200000"
  have days: "MakeDay 2025 1 10 = 20098" "MakeDay 2025 1 9 = 20097"
    by (simp_all add: MakeDay_def DayFromYear_def)
  have p: "parse_date_only ''2025-01-10'' = Some 1736467200000"
    by (simp add: parse_date_only_def Let_def is_digit_def int_of_digits_def digit_val_def
        DaysInMonth_def MakeDay_def DayFromYear_def)
  have n: "now_ms ?clk = local_midnight (- 18000000) 2025 1 10 + 10 * 3600000"
    by (simp add: zone_clock_def local_midnight_def days)
  have t: "today ?clk = Some (local_midnight (- 18000000) 2025 1 10)"
    by (simp add: today_def zone_clock_def local_midnight_def days)
  have d: "day_of ?clk ''2025-01-10'' = Some (local_midnight (- 18000000) 2025 1 9)"
    by (simp add: day_of_def zone_clock_def local_midnight_def days p)
  have dp: "dateProp (upcoming_page ''a'' ''Meetup'' ''2025-01-10'')
              = Some (PDate (Some (Date_value ''2025-01-10'' None)))"
    by (simp add: dateProp_def upcoming_page_def)
  have past: "isPastEvent ?clk (upcoming_page ''a'' ''Meetup'' ''2025-01-10'')"
    unfolding isPastEvent_def dp
    by (simp add: d t date_lt_def local_midnight_def days)
  have ident: "page_id (upcoming_page ''a'' ''Meetup'' ''2025-01-10'') = ''a''"
    by (simp add: upcoming_page_def)
  have run: "map_option (\<lambda>run. (calls run, updatedCount run))
       (updateEventStatusesInNotion ?clk (paged_store [])
          [[upcoming_page ''a'' ''Meetup'' ''2025-01-10'']])
     = Some ([\<lparr>target = ''a'', new_status = ''Past''\<rparr>], 1)"
    by (simp only: updateEventStatusesInNotion_paged_store)
       (simp add: past ident Let_def past_call_def paged_store_def)
  from n t d run show ?thesis by (simp only: simp_thms)
qed

text \<open>
  The same record at the same hour of the same day in UTC: no call is made.
\<close>

lemma updateEventStatusesInNotion_today_in_UTC:
  "map_option calls
     (updateEventStatusesInNotion (zone_clock other 0 1736503200000) (paged_store [])
        [[upcoming_page ''a'' ''Meetup'' ''2025-01-10'']])
   = Some []"
proof -
  let ?clk = "zone_clock other 0 1736503200000"
  have p: "parse_date_only ''2025-01-10'' = Some 1736467200000"
    by (simp add: parse_date_only_def Let_def is_digit_def int_of_digits_def digit_val_def
        DaysInMonth_def MakeDay_def DayFromYear_def)
  have past: "\<not> isPastEvent ?clk (upcoming_page ''a'' ''Meetup'' ''2025-01-10'')"
    by (simp add: isPastEvent_def dateProp_def upcoming_page_def day_of_def today_def
        zone_clock_def p date_lt_def)
  show ?thesis
    by (simp only: updateEventStatusesInNotion_paged_store)
       (simp add: past Let_def)
qed

text \<open>
  C7, as stated, fails: the function does not return the count. With two records to
  update and both updates successful, the count is 2 and the value returned is the
  boolean \<open>true\<close>.
\<close>

theorem updateEventStatusesInNotion_returns_bool_C7_counterexample:
  "map_option updatedCount
     (updateEventStatusesInNotion example_clock (paged_store [])
        [[upcoming_page ''b'' ''B'' ''2000-01-01'', upcoming_page ''c'' ''C'' ''2000-01-02'']])
   = Some 2
   \<and> map_option returned
     (updateEventStatusesInNotion example_clock (paged_store [])
        [[upcoming_page ''b'' ''B'' ''2000-01-01'', upcoming_page ''c'' ''C'' ''2000-01-02'']])
   = Some (JBool True)
   \<and> JBool True \<noteq> JNum (Dec 2 0)"
  by (simp only: updateEventStatusesInNotion_paged_store)
     (simp add: example_eval paged_store_def)

text \<open>
  C7, amended. Whenever the pagination loop ends, the function returns; it returns the
  boolean \<^verbatim>\<open>updatedCount > 0\<close>, where \<^verbatim>\<open>updatedCount\<close> is the number of update calls
  that succeeded (\<open>false\<close>, with no call, when the query threw). Every record found in
  the past gets its update call and every call its outcome, whatever the outcomes of the
  other calls: a failed update is counted as not updated and nothing is aborted.
\<close>

theorem updateEventStatusesInNotion_tolerant_C7:
  assumes "fetchAllPages (upcoming_query api r) None [] = Some answer"
  shows "\<exists>run. updateEventStatusesInNotion clk api r = Some run
     \<and> (case answer of
          Inl e \<Rightarrow> returned run = JBool False \<and> calls run = []
        | Inr allPages \<Rightarrow>
            calls run = map past_call (filter (isPastEvent clk) allPages)
            \<and> outcomes run = fst (fire_updates api r (calls run))
            \<and> length (outcomes run) = length (calls run)
            \<and> updatedCount run = length (filter (\<lambda>outcome. outcome = None) (outcomes run))
            \<and> returned run = JBool (0 < updatedCount run))"
proof (cases answer)
  case (Inl e)
  with assms show ?thesis by (simp add: updateEventStatusesInNotion_def)
next
  case (Inr allPages)
  have len: "length (fst (fire_updates api s cs)) = length cs" for s cs
  proof (induction cs arbitrary: s)
    case Nil
    show ?case by simp
  next
    case (Cons c cs)
    obtain o1 s1 where u: "pages_update api s c = (o1, s1)"
      by (cases "pages_update api s c")
    obtain os s2 where f: "fire_updates api s1 cs = (os, s2)"
      by (cases "fire_updates api s1 cs")
    from Cons [of s1] f have "length os = length cs" by simp
    with u f show ?case by simp
  qed
  from Inr assms show ?thesis
    by (simp add: updateEventStatusesInNotion_def Let_def len)
qed

theorem updateEventStatusesInNotion_tolerant_C7_witness:
  "map_option outcomes
     (updateEventStatusesInNotion example_clock (paged_store [''b''])
        [[upcoming_page ''b'' ''B'' ''2000-01-01'', upcoming_page ''c'' ''C'' ''2000-01-02'']])
   = Some [Some (APIError ''conflict''), None]
   \<and> map_option updatedCount
     (updateEventStatusesInNotion example_clock (paged_store [''b''])
        [[upcoming_page ''b'' ''B'' ''2000-01-01'', upcoming_page ''c'' ''C'' ''2000-01-02'']])
   = Some 1
   \<and> map_option returned
     (updateEventStatusesInNotion example_clock (paged_store [''b''])
        [[upcoming_page ''b'' ''B'' ''2000-01-01'', upcoming_page ''c'' ''C'' ''2000-01-02'']])
   = Some (JBool True)"
proof -
  let ?B = "upcoming_page ''b'' ''B'' ''2000-01-01''"
  let ?C = "upcoming_page ''c'' ''C'' ''2000-01-02''"
  have q: "fetchAllPages (upcoming_query (paged_store [''b'']) [[?B, ?C]]) None []
           = Some (Inr [?B, ?C])"
    by (simp add: fetchAllPages_paged_store)
  have past: "filter (isPastEvent example_clock) [?B, ?C] = [?B, ?C]"
    by (simp add: example_eval)
  have fired: "fst (fire_updates (paged_store [''b'']) [[?B, ?C]] (map past_call [?B, ?C]))
               = [Some (APIError ''conflict''), None]"
    by (simp add: paged_store_def past_call_def upcoming_page_def)
  from updateEventStatusesInNotion_tolerant_C7 [OF q, of example_clock]
  obtain run where r: "updateEventStatusesInNotion example_clock (paged_store [''b'']) [[?B, ?C]]
                       = Some run"
    and c: "calls run = map past_call (filter (isPastEvent example_clock) [?B, ?C])"
    and o: "outcomes run = fst (fire_updates (paged_store [''b'']) [[?B, ?C]] (calls run))"
    and u: "updatedCount run = length (filter (\<lambda>outcome. outcome = None) (outcomes run))"
    and b: "returned run = JBool (0 < updatedCount run)"
    by auto
  from o c have "outcomes run = [Some (APIError ''conflict''), None]"
    by (simp only: past fired)
  with r u b show ?thesis by simp
qed

subsection \<open>Staleness checker\<close>

text \<open>What each copy of the checker computes once the checkpoint has been read.\<close>

lemma checkIfFetchNeeded_iff:
  assumes "readLastSyncTimestamp fs = Inr checkpoint"
  shows "checkIfFetchNeeded clk api r fs
         = Inr (\<not> present checkpoint
                \<or> \<not> present (getDatabaseLastEditedTime api r)
                \<or> date_lt (day_of clk (the checkpoint))
                     (Date_parse clk (the (getDatabaseLastEditedTime api r)))
                \<or> checkForDateBasedStatusChanges clk api r)"
  using assms by (simp add: checkIfFetchNeeded_def Let_def)

text \<open>
  The copy in src/unnamed/part_001 compares the two timestamps as they are: with a
  checkpoint and a remote timestamp that both parse, it asks for a fetch exactly when
  the remote one is strictly newer.
\<close>

lemma checkIfFetchNeeded_part_001_iff:
  assumes "readLastSyncTimestamp fs = Inr (Some checkpoint)" and "checkpoint \<noteq> []"
    and "getDatabaseLastEditedTime api r = Some edited" and "edited \<noteq> []"
    and "Date_parse clk checkpoint = Some t0" and "Date_parse clk edited = Some t1"
  shows "checkIfFetchNeeded_part_001 clk api r fs = Inr (t0 < t1)"
  using assms by (auto simp: checkIfFetchNeeded_part_001_def present_def date_le_def)

text \<open>
  C5. In src/scripts/check-notion-updates.mjs the checkpoint is set to the start of
  its day before the comparison. With the checkpoint and the remote last-modified time
  both at 2025-01-10T10:00:00.000Z (the remote one is not newer), no upcoming record
  at all, and a clock in UTC, the checker answers that a fetch is needed and exits with
  code 0, where the claim says skip, exit code 1. The copy in src/unnamed/part_001
  answers skip on the same input.
\<close>

theorem checkIfFetchNeeded_truncated_checkpoint_C5:
  "checkIfFetchNeeded example_clock (paged_store []) []
     (files_of [(''.last-sync'', ''2025-01-10T10:00:00.000Z'')]) = Inr True
   \<and> check_exit_code (checkIfFetchNeeded example_clock (paged_store []) []
        (files_of [(''.last-sync'', ''2025-01-10T10:00:00.000Z'')])) = 0
   \<and> checkForDateBasedStatusChanges example_clock (paged_store []) [] = False
   \<and> checkIfFetchNeeded_part_001 example_clock (paged_store []) []
        (files_of [(''.last-sync'', ''2025-01-10T10:00:00.000Z'')]) = Inr False"
  by (simp add: checkIfFetchNeeded_def checkIfFetchNeeded_part_001_def
      readLastSyncTimestamp_def readFile_def files_of_def trim_def is_space_def
      getDatabaseLastEditedTime_def paged_store_def present_def day_of_def
      example_clock_def fixed_offset_clock_def date_lt_def date_le_def
      checkForDateBasedStatusChanges_def serve_pages_def check_exit_code_def)

subsection \<open>JSON strings\<close>

lemma hex_val_hex_digit: "k < 16 \<Longrightarrow> hex_val (hex_digit k) = Some k"
  by (simp add: hex_val_def hex_digit_def Let_def)

lemma prepend_Some: "prepend pre (Some (s, rest)) = Some (pre @ s, rest)"
  by (simp add: prepend_def)

lemma escape_control:
  assumes "(of_char c :: nat) < 32" and "c \<noteq> CHR 0x08" and "c \<noteq> CHR 0x0C"
    and "c \<noteq> CHR 0x0A" and "c \<noteq> CHR 0x0D" and "c \<noteq> CHR 0x09"
  shows "escape_char c = [CHR 0x5C, CHR ''u'', CHR ''0'', CHR ''0'',
           hex_digit ((of_char c :: nat) div 16), hex_digit ((of_char c :: nat) mod 16)]"
proof -
  have a: "c \<noteq> CHR 0x22"
  proof
    assume "c = CHR 0x22"
    then have "(of_char c :: nat) = 34" by simp
    with assms(1) show False by simp
  qed
  have b: "c \<noteq> CHR 0x5C"
  proof
    assume "c = CHR 0x5C"
    then have "(of_char c :: nat) = 92" by simp
    with assms(1) show False by simp
  qed
  show ?thesis
    unfolding escape_char_def
    by (simp only: a b assms if_False if_True)
qed

lemma utf8_encode_control:
  "(of_char c :: nat) < 32 \<Longrightarrow>
   utf8_encode (4096 * 0 + 256 * 0 + 16 * ((of_char c :: nat) div 16) + (of_char c :: nat) mod 16)
   = [c]"
  by (simp add: utf8_encode_def)

lemma parse_chars_unicode_escape:
  assumes "hex_val h1 = Some a" and "hex_val h2 = Some b"
    and "hex_val h3 = Some x" and "hex_val h4 = Some y"
  shows "parse_chars (CHR 0x5C # CHR ''u'' # h1 # h2 # h3 # h4 # t)
         = prepend (utf8_encode (4096 * a + 256 * b + 16 * x + y)) (parse_chars t)"
  by (simp add: assms)

lemma parse_chars_short_escape:
  "unescape e = Some ch \<Longrightarrow> e \<noteq> CHR ''u'' \<Longrightarrow>
   parse_chars (CHR 0x5C # e # t) = prepend [ch] (parse_chars t)"
  by simp

lemma parse_chars_plain:
  "c \<noteq> CHR 0x22 \<Longrightarrow> c \<noteq> CHR 0x5C \<Longrightarrow> \<not> (of_char c :: nat) < 32 \<Longrightarrow>
   parse_chars (c # t) = prepend [c] (parse_chars t)"
  by (simp only: parse_chars.simps if_False)

lemma parse_chars_escape:
  "parse_chars (escape_char c @ t) = prepend [c] (parse_chars t)"
proof -
  consider (quote) "c = CHR 0x22" | (backslash) "c = CHR 0x5C" | (b) "c = CHR 0x08"
    | (f) "c = CHR 0x0C" | (n) "c = CHR 0x0A" | (r) "c = CHR 0x0D" | (t) "c = CHR 0x09"
    | (control) "c \<noteq> CHR 0x08" "c \<noteq> CHR 0x0C" "c \<noteq> CHR 0x0A" "c \<noteq> CHR 0x0D" "c \<noteq> CHR 0x09"
        "(of_char c :: nat) < 32"
    | (plain) "c \<noteq> CHR 0x22" "c \<noteq> CHR 0x5C" "c \<noteq> CHR 0x08" "c \<noteq> CHR 0x0C" "c \<noteq> CHR 0x0A"
        "c \<noteq> CHR 0x0D" "c \<noteq> CHR 0x09" "\<not> (of_char c :: nat) < 32"
    by blast
  then show ?thesis
  proof cases
    case quote
    have "escape_char (CHR 0x22) = [CHR 0x5C, CHR 0x22]" by (simp add: escape_char_def)
    moreover have "unescape (CHR 0x22) = Some (CHR 0x22)" by (simp add: unescape_def)
    ultimately show ?thesis unfolding quote by (simp add: parse_chars_short_escape)
  next
    case backslash
    have "escape_char (CHR 0x5C) = [CHR 0x5C, CHR 0x5C]" by (simp add: escape_char_def)
    moreover have "unescape (CHR 0x5C) = Some (CHR 0x5C)" by (simp add: unescape_def)
    ultimately show ?thesis unfolding backslash by (simp add: parse_chars_short_escape)
  next
    case b
    have "escape_char (CHR 0x08) = [CHR 0x5C, CHR ''b'']" by (simp add: escape_char_def)
    moreover have "unescape (CHR ''b'') = Some (CHR 0x08)" by (simp add: unescape_def)
    ultimately show ?thesis unfolding b by (simp add: parse_chars_short_escape)
  next
    case f
    have "escape_char (CHR 0x0C) = [CHR 0x5C, CHR ''f'']" by (simp add: escape_char_def)
    moreover have "unescape (CHR ''f'') = Some (CHR 0x0C)" by (simp add: unescape_def)
    ultimately show ?thesis unfolding f by (simp add: parse_chars_short_escape)
  next
    case n
    have "escape_char (CHR 0x0A) = [CHR 0x5C, CHR ''n'']" by (simp add: escape_char_def)
    moreover have "unescape (CHR ''n'') = Some (CHR 0x0A)" by (simp add: unescape_def)
    ultimately show ?thesis unfolding n by (simp add: parse_chars_short_escape)
  next
    case r
    have "escape_char (CHR 0x0D) = [CHR 0x5C, CHR ''r'']" by (simp add: escape_char_def)
    moreover have "unescape (CHR ''r'') = Some (CHR 0x0D)" by (simp add: unescape_def)
    ultimately show ?thesis unfolding r by (simp add: parse_chars_short_escape)
  next
    case t
    have "escape_char (CHR 0x09) = [CHR 0x5C, CHR ''t'']" by (simp add: escape_char_def)
    moreover have "unescape (CHR ''t'') = Some (CHR 0x09)" by (simp add: unescape_def)
    ultimately show ?thesis unfolding t by (simp add: parse_chars_short_escape)
  next
    case control
    let ?n = "of_char c :: nat"
    have e: "escape_char c = [CHR 0x5C, CHR ''u'', CHR ''0'', CHR ''0'',
               hex_digit (?n div 16), hex_digit (?n mod 16)]"
      using control(6) control(1-5) by (rule escape_control)
    have h0: "hex_val (CHR ''0'') = Some 0"
      by (simp add: hex_val_def)
    have h1: "hex_val (hex_digit (?n div 16)) = Some (?n div 16)"
      using control(6) by (intro hex_val_hex_digit) simp
    have h2: "hex_val (hex_digit (?n mod 16)) = Some (?n mod 16)"
      by (intro hex_val_hex_digit) simp
    have "parse_chars (escape_char c @ t)
          = prepend (utf8_encode (4096 * 0 + 256 * 0 + 16 * (?n div 16) + ?n mod 16)) (parse_chars t)"
      unfolding e append_Cons append_Nil
      using h0 h0 h1 h2 by (rule parse_chars_unicode_escape)
    also have "utf8_encode (4096 * 0 + 256 * 0 + 16 * (?n div 16) + ?n mod 16) = [c]"
      using control(6) by (rule utf8_encode_control)
    finally show ?thesis .
  next
    case plain
    have "escape_char c = [c]"
      unfolding escape_char_def by (simp only: plain if_False)
    moreover have "parse_chars (c # t) = prepend [c] (parse_chars t)"
      using plain(1,2,8) by (rule parse_chars_plain)
    ultimately show ?thesis by (simp only: append_Cons append_Nil)
  qed
qed

lemma parse_chars_escaped:
  "parse_chars (concat (map escape_char s) @ CHR 0x22 # rest) = Some (s, rest)"
proof (induction s)
  case Nil
  show ?case by simp
next
  case (Cons c s)
  have "parse_chars (concat (map escape_char (c # s)) @ CHR 0x22 # rest)
        = parse_chars (escape_char c @ (concat (map escape_char s) @ CHR 0x22 # rest))"
    by simp
  also have "\<dots> = prepend [c] (parse_chars (concat (map escape_char s) @ CHR 0x22 # rest))"
    by (rule parse_chars_escape)
  also have "\<dots> = Some (c # s, rest)"
    by (simp only: Cons.IH prepend_Some append_Cons append_Nil)
  finally show ?case .
qed

lemma parse_chars_quote:
  "quote s @ rest = CHR 0x22 # t \<Longrightarrow> parse_chars t = Some (s, rest)"
  by (auto simp: quote_def parse_chars_escaped)

subsection \<open>JSON numbers\<close>

lemma is_digit_digit_char: "0 \<le> d \<Longrightarrow> d < 10 \<Longrightarrow> is_digit (digit_char d)"
  by (simp add: digit_char_def is_digit_def)

lemma digit_val_digit_char: "0 \<le> d \<Longrightarrow> d < 10 \<Longrightarrow> digit_val (digit_char d) = d"
  by (simp add: digit_char_def digit_val_def)

lemma digit_char_zero: "0 \<le> d \<Longrightarrow> d < 10 \<Longrightarrow> digit_char d = CHR ''0'' \<Longrightarrow> d = 0"
  using digit_val_digit_char [of d] by (simp add: digit_val_def)

lemma decimal_digits_small: "n < 10 \<Longrightarrow> decimal_digits n = [digit_char n]"
  by (subst decimal_digits.simps) simp

lemma decimal_digits_large:
  "\<not> n < 10 \<Longrightarrow> decimal_digits n = decimal_digits (n div 10) @ [digit_char (n mod 10)]"
  by (subst decimal_digits.simps) simp

lemma decimal_digits_nonempty: "decimal_digits n \<noteq> []"
  by (cases "n < 10") (simp_all add: decimal_digits_small decimal_digits_large)

lemma decimal_digits_digits: "0 \<le> n \<Longrightarrow> c \<in> set (decimal_digits n) \<Longrightarrow> is_digit c"
proof (induction n arbitrary: c rule: decimal_digits.induct)
  case (1 n)
  show ?case
  proof (cases "n < 10")
    case True
    with "1.prems" show ?thesis
      by (simp add: decimal_digits_small is_digit_digit_char)
  next
    case False
    with "1.prems" have "c \<in> set (decimal_digits (n div 10)) \<or> c = digit_char (n mod 10)"
      by (auto simp: decimal_digits_large)
    then show ?thesis
    proof
      assume "c \<in> set (decimal_digits (n div 10))"
      with False "1.prems"(1) show ?thesis by (intro "1.IH") simp_all
    next
      assume "c = digit_char (n mod 10)"
      then show ?thesis by (simp add: is_digit_digit_char)
    qed
  qed
qed

lemma int_of_digits_snoc: "int_of_digits (ds @ [d]) = 10 * int_of_digits ds + digit_val d"
  by (simp add: int_of_digits_def)

lemma int_of_digits_decimal_digits: "0 \<le> n \<Longrightarrow> int_of_digits (decimal_digits n) = n"
proof (induction n rule: decimal_digits.induct)
  case (1 n)
  show ?case
  proof (cases "n < 10")
    case True
    with "1.prems" show ?thesis
      by (simp add: decimal_digits_small int_of_digits_def digit_val_digit_char)
  next
    case False
    with "1.prems" have "int_of_digits (decimal_digits (n div 10)) = n div 10"
      by (intro "1.IH") simp_all
    with False show ?thesis
      by (simp add: decimal_digits_large int_of_digits_snoc digit_val_digit_char)
  qed
qed

lemma decimal_digits_no_leading_zero: "0 < n \<Longrightarrow> hd (decimal_digits n) \<noteq> CHR ''0''"
proof (induction n rule: decimal_digits.induct)
  case (1 n)
  show ?case
  proof (cases "n < 10")
    case True
    show ?thesis
    proof
      assume "hd (decimal_digits n) = CHR ''0''"
      with True have "digit_char n = CHR ''0''" by (simp add: decimal_digits_small)
      with True "1.prems" have "n = 0" by (intro digit_char_zero) simp_all
      with "1.prems" show False by simp
    qed
  next
    case False
    then have "0 < n div 10" by simp
    with False have "hd (decimal_digits (n div 10)) \<noteq> CHR ''0''" by (rule "1.IH")
    with False show ?thesis
      by (simp add: decimal_digits_large decimal_digits_nonempty)
  qed
qed

lemma int_of_digits_append:
  "int_of_digits (xs @ ys) = int_of_digits xs * 10 ^ length ys + int_of_digits ys"
proof (induction ys rule: rev_induct)
  case Nil
  show ?case by (simp add: int_of_digits_def)
next
  case (snoc y ys)
  have "int_of_digits (xs @ ys @ [y]) = 10 * int_of_digits (xs @ ys) + digit_val y"
    using int_of_digits_snoc [of "xs @ ys" y] by simp
  with snoc show ?case by (simp add: int_of_digits_snoc algebra_simps)
qed

lemma int_of_digits_zeros: "int_of_digits (replicate j (CHR ''0'')) = 0"
proof (induction j)
  case 0
  show ?case by (simp add: int_of_digits_def)
next
  case (Suc j)
  have "replicate (Suc j) (CHR ''0'') = replicate j (CHR ''0'') @ [CHR ''0'']"
    by (simp add: replicate_append_same)
  with Suc show ?case by (simp only: int_of_digits_snoc) (simp add: digit_val_def)
qed

lemma takeWhile_digits:
  assumes "\<forall>c\<in>set ds. is_digit c" and "rest = [] \<or> \<not> is_digit (hd rest)"
  shows "takeWhile is_digit (ds @ rest) = ds" and "dropWhile is_digit (ds @ rest) = rest"
proof -
  from assms(2) have t: "takeWhile is_digit rest = []" and d: "dropWhile is_digit rest = rest"
    by (cases rest; simp)+
  from assms(1) show "takeWhile is_digit (ds @ rest) = ds"
    by (simp add: takeWhile_append2 t)
  from assms(1) show "dropWhile is_digit (ds @ rest) = rest"
    by (simp add: dropWhile_append2 d)
qed

lemma number_end_cases:
  "number_end rest \<Longrightarrow> rest = [] \<or> (\<not> is_digit (hd rest) \<and> hd rest \<notin> set ''.eE'')"
  by (cases rest) (simp_all add: number_end_def)

lemma parse_fraction_none: "number_end rest \<Longrightarrow> parse_fraction rest = Some ([], rest)"
  by (cases rest) (simp_all add: parse_fraction_def number_end_def)

lemma parse_fraction_exponent: "parse_fraction (CHR ''e'' # t) = Some ([], CHR ''e'' # t)"
  by (simp add: parse_fraction_def)

lemma parse_fraction_digits:
  assumes "frac \<noteq> []" and "\<forall>c\<in>set frac. is_digit c" and "t = [] \<or> \<not> is_digit (hd t)"
  shows "parse_fraction (CHR ''.'' # frac @ t) = Some (frac, t)"
  using assms takeWhile_digits [OF assms(2,3)] by (simp add: parse_fraction_def)

lemma parse_exponent_none: "number_end rest \<Longrightarrow> parse_exponent rest = Some (0, rest)"
  by (cases rest) (simp_all add: parse_exponent_def number_end_def)

lemma parse_exponent_plus:
  assumes "0 \<le> x" and "number_end rest"
  shows "parse_exponent (CHR ''e'' # CHR ''+'' # decimal_digits x @ rest) = Some (x, rest)"
proof -
  have dig: "\<forall>c\<in>set (decimal_digits x). is_digit c"
    using assms(1) by (simp add: decimal_digits_digits)
  from assms(2) have f: "rest = [] \<or> \<not> is_digit (hd rest)"
    using number_end_cases by blast
  show ?thesis
    using takeWhile_digits [OF dig f] decimal_digits_nonempty [of x] assms(1)
    by (simp add: parse_exponent_def int_of_digits_decimal_digits)
qed

lemma parse_exponent_minus:
  assumes "0 \<le> x" and "number_end rest"
  shows "parse_exponent (CHR ''e'' # CHR ''-'' # decimal_digits x @ rest) = Some (- x, rest)"
proof -
  have dig: "\<forall>c\<in>set (decimal_digits x). is_digit c"
    using assms(1) by (simp add: decimal_digits_digits)
  from assms(2) have f: "rest = [] \<or> \<not> is_digit (hd rest)"
    using number_end_cases by blast
  show ?thesis
    using takeWhile_digits [OF dig f] decimal_digits_nonempty [of x] assms(1)
    by (simp add: parse_exponent_def int_of_digits_decimal_digits)
qed

lemma parse_exponent_signed:
  assumes "number_end rest"
  shows "parse_exponent (CHR ''e'' # (if 0 \<le> x then CHR ''+'' else CHR ''-'')
            # decimal_digits \<bar>x\<bar> @ rest) = Some (x, rest)"
proof (cases "0 \<le> x")
  case True
  then show ?thesis using parse_exponent_plus [OF _ assms, of x] by simp
next
  case False
  then show ?thesis using parse_exponent_minus [OF _ assms, of "- x"] by simp
qed

lemma parse_number_parts:
  assumes w: "whole \<noteq> []" and dig: "\<forall>c\<in>set whole. is_digit c"
    and lead: "\<not> (1 < length whole \<and> hd whole = CHR ''0'')"
    and t: "tail = [] \<or> \<not> is_digit (hd tail)"
    and fr: "parse_fraction tail = Some (frac, r2)"
    and ex: "parse_exponent r2 = Some (x, r3)"
  shows "parse_number (whole @ tail)
         = Some (Number_of_decimal False (int_of_digits (whole @ frac)) (x - int (length frac)), r3)"
    and "parse_number (CHR ''-'' # whole @ tail)
         = Some (Number_of_decimal True (int_of_digits (whole @ frac)) (x - int (length frac)), r3)"
proof -
  obtain c u where cu: "whole = c # u" using w by (cases whole) auto
  with dig have "is_digit c" by simp
  then have notminus: "c \<noteq> CHR ''-''" by (auto simp: is_digit_def)
  have tw: "takeWhile is_digit (whole @ tail) = whole"
    and dw: "dropWhile is_digit (whole @ tail) = tail"
    using takeWhile_digits [OF dig t] by simp_all
  have neg: "(case whole @ tail of [] \<Rightarrow> False | c # cs \<Rightarrow> c = CHR ''-'') = False"
    using notminus by (simp add: cu)
  show "parse_number (whole @ tail)
         = Some (Number_of_decimal False (int_of_digits (whole @ frac)) (x - int (length frac)), r3)"
    unfolding parse_number_def Let_def neg if_False tw dw fr ex
    using w lead by (simp only: if_False option.case prod.case ex)
  have neg': "(case CHR ''-'' # whole @ tail of [] \<Rightarrow> False | c # cs \<Rightarrow> c = CHR ''-'') = True"
    by simp
  show "parse_number (CHR ''-'' # whole @ tail)
         = Some (Number_of_decimal True (int_of_digits (whole @ frac)) (x - int (length frac)), r3)"
    unfolding parse_number_def Let_def neg' if_True list.sel tw dw fr ex
    using w lead by (simp only: if_False option.case prod.case ex)
qed

lemma Number_of_decimal_cong:
  "(M = 0 \<longleftrightarrow> M' = 0) \<Longrightarrow> fraction_of M E = fraction_of M' E' \<Longrightarrow>
   Number_of_decimal negative M E = Number_of_decimal negative M' E'"
  by (simp add: Number_of_decimal_def)

lemma Number_of_decimal_integer:
  "0 < s \<Longrightarrow> 0 \<le> e \<Longrightarrow>
   Number_of_decimal negative (s * 10 ^ nat e) 0 = Number_of_decimal negative s e"
  by (rule Number_of_decimal_cong) (simp_all add: fraction_of_def)

lemma format_decimal_shape:
  assumes "ds = decimal_digits s" and "k = int (length ds)" and "n = k + e"
  shows "format_decimal s e =
      (if k \<le> n \<and> n \<le> 21 then ds @ replicate (nat (n - k)) (CHR ''0'')
       else if 0 < n \<and> n \<le> 21 then take (nat n) ds @ CHR ''.'' # drop (nat n) ds
       else if - 6 < n \<and> n \<le> 0 then CHR ''0'' # CHR ''.'' # replicate (nat (- n)) (CHR ''0'') @ ds
       else if k = 1
         then ds @ CHR ''e'' # (if 0 \<le> n - 1 then CHR ''+'' else CHR ''-'') # decimal_digits \<bar>n - 1\<bar>
         else hd ds # CHR ''.'' # tl ds
                @ CHR ''e'' # (if 0 \<le> n - 1 then CHR ''+'' else CHR ''-'') # decimal_digits \<bar>n - 1\<bar>)"
  unfolding format_decimal_def Let_def assms(1) [symmetric] assms(2) [symmetric] assms(3) [symmetric]
  by (rule refl)

lemma format_decimal_start:
  assumes "0 < s"
  shows "\<exists>c t. format_decimal s e = c # t \<and> is_digit c"
proof -
  define ds where "ds = decimal_digits s"
  define k where "k = int (length ds)"
  define n where "n = k + e"
  obtain c u where cu: "ds = c # u"
    using decimal_digits_nonempty [of s] by (cases ds) (auto simp: ds_def)
  have "c \<in> set (decimal_digits s)" using cu by (simp add: ds_def [symmetric])
  with assms have c: "is_digit c" by (intro decimal_digits_digits) simp_all
  have zero: "is_digit (CHR ''0'')" by (simp add: is_digit_def)
  have "0 < n \<Longrightarrow> take (nat n) (c # u) = c # take (nat n - 1) u"
    by (cases "nat n") simp_all
  then show ?thesis
    using c zero by (simp add: format_decimal_shape [OF ds_def k_def n_def] cu)
qed

text \<open>The four shapes of a printed decimal, read back.\<close>

lemma parse_number_format_decimal:
  assumes s: "0 < s" and rest: "number_end rest"
  shows "parse_number (format_decimal s e @ rest) = Some (Number_of_decimal False s e, rest)"
    and "parse_number (CHR ''-'' # format_decimal s e @ rest)
         = Some (Number_of_decimal True s e, rest)"
proof -
  define ds where "ds = decimal_digits s"
  define k where "k = int (length ds)"
  define n where "n = k + e"
  have ne: "ds \<noteq> []" by (simp add: ds_def decimal_digits_nonempty)
  from s have s0: "0 \<le> s" by simp
  have dig: "\<forall>c\<in>set ds. is_digit c" using s0 by (simp add: ds_def decimal_digits_digits)
  have val: "int_of_digits ds = s" using s0 by (simp add: ds_def int_of_digits_decimal_digits)
  have lead: "hd ds \<noteq> CHR ''0''" using s by (simp add: ds_def decimal_digits_no_leading_zero)
  have k: "0 < k" using ne by (simp add: k_def)
  from rest have r: "rest = [] \<or> \<not> is_digit (hd rest)" using number_end_cases by blast
  note fd = format_decimal_shape [OF ds_def k_def n_def]
  have both: "parse_number (format_decimal s e @ rest) = Some (Number_of_decimal False s e, rest)
    \<and> parse_number (CHR ''-'' # format_decimal s e @ rest) = Some (Number_of_decimal True s e, rest)"
  proof -
    consider (integer) "k \<le> n" "n \<le> 21"
      | (point) "\<not> (k \<le> n \<and> n \<le> 21)" "0 < n" "n \<le> 21"
      | (small) "\<not> (k \<le> n \<and> n \<le> 21)" "\<not> (0 < n \<and> n \<le> 21)" "- 6 < n" "n \<le> 0"
      | (exponent) "\<not> (k \<le> n \<and> n \<le> 21)" "\<not> (0 < n \<and> n \<le> 21)" "\<not> (- 6 < n \<and> n \<le> 0)"
      by blast
    then show ?thesis
    proof cases
      case integer
      let ?zeros = "replicate (nat (n - k)) (CHR ''0'')"
      have e: "0 \<le> e" "nat (n - k) = nat e" using integer by (simp_all add: n_def)
      have shape: "format_decimal s e = ds @ ?zeros"
        by (simp only: fd if_P [OF conjI [OF integer]])
      have w: "ds @ ?zeros \<noteq> []" using ne by simp
      have d: "\<forall>c\<in>set (ds @ ?zeros). is_digit c" using dig by (auto simp: is_digit_def)
      have l: "\<not> (1 < length (ds @ ?zeros) \<and> hd (ds @ ?zeros) = CHR ''0'')"
        using lead ne by simp
      have v: "int_of_digits ((ds @ ?zeros) @ []) = s * 10 ^ nat e"
        by (simp add: int_of_digits_append int_of_digits_zeros val e)
      have p: "parse_number ((ds @ ?zeros) @ rest)
                 = Some (Number_of_decimal False (s * 10 ^ nat e) 0, rest)"
        "parse_number (CHR ''-'' # (ds @ ?zeros) @ rest)
                 = Some (Number_of_decimal True (s * 10 ^ nat e) 0, rest)"
        using parse_number_parts [OF w d l r parse_fraction_none [OF rest] parse_exponent_none [OF rest]]
        by (simp_all only: v list.size of_nat_0 diff_zero)
      then show ?thesis
        using Number_of_decimal_integer [OF s e(1)] by (simp add: shape)
    next
      case point
      let ?whole = "take (nat n) ds" and ?frac = "drop (nat n) ds"
      have nk: "n < k" using point by linarith
      have shape: "format_decimal s e = ?whole @ CHR ''.'' # ?frac"
        by (simp only: fd if_not_P [OF point(1)] if_P [OF conjI [OF point(2,3)]])
      have w: "?whole \<noteq> []" using ne point by simp
      have d: "\<forall>c\<in>set ?whole. is_digit c" using dig by (auto dest: in_set_takeD)
      have l: "\<not> (1 < length ?whole \<and> hd ?whole = CHR ''0'')"
        using lead point by simp
      have t: "CHR ''.'' # ?frac @ rest = [] \<or> \<not> is_digit (hd (CHR ''.'' # ?frac @ rest))"
        by (simp add: is_digit_def)
      have fne: "?frac \<noteq> []" using nk point by (simp add: k_def)
      have fd: "\<forall>c\<in>set ?frac. is_digit c" using dig by (auto dest: in_set_dropD)
      have fr: "parse_fraction (CHR ''.'' # ?frac @ rest) = Some (?frac, rest)"
        using fne fd r by (rule parse_fraction_digits)
      have len: "0 - int (length ?frac) = e"
        using nk point by (simp add: k_def n_def)
      have p: "parse_number (?whole @ CHR ''.'' # ?frac @ rest)
                 = Some (Number_of_decimal False s e, rest)"
        "parse_number (CHR ''-'' # ?whole @ CHR ''.'' # ?frac @ rest)
                 = Some (Number_of_decimal True s e, rest)"
        using parse_number_parts [OF w d l t fr parse_exponent_none [OF rest]]
        by (simp_all only: append_take_drop_id val len)
      then show ?thesis by (simp add: shape)
    next
      case small
      let ?zeros = "replicate (nat (- n)) (CHR ''0'')"
      have shape: "format_decimal s e = ''0'' @ CHR ''.'' # ?zeros @ ds"
        by (simp only: fd if_not_P [OF small(1)] if_not_P [OF small(2)] if_P [OF conjI [OF small(3,4)]] append_Cons append_Nil)
      have d: "\<forall>c\<in>set ''0''. is_digit c" by (simp add: is_digit_def)
      have t: "CHR ''.'' # (?zeros @ ds) @ rest = []
               \<or> \<not> is_digit (hd (CHR ''.'' # (?zeros @ ds) @ rest))"
        by (simp add: is_digit_def)
      have fd: "\<forall>c\<in>set (?zeros @ ds). is_digit c" using dig by (auto simp: is_digit_def)
      have fr: "parse_fraction (CHR ''.'' # (?zeros @ ds) @ rest) = Some (?zeros @ ds, rest)"
        using ne fd r by (intro parse_fraction_digits) simp_all
      have v: "int_of_digits (''0'' @ ?zeros @ ds) = s"
        using int_of_digits_zeros [of "Suc (nat (- n))"]
        by (simp add: int_of_digits_append [of "CHR ''0'' # ?zeros" ds, simplified] val)
      have len: "0 - int (length (?zeros @ ds)) = e"
        using small by (simp add: k_def n_def)
      have p: "parse_number (''0'' @ CHR ''.'' # (?zeros @ ds) @ rest)
                 = Some (Number_of_decimal False s e, rest)"
        "parse_number (CHR ''-'' # ''0'' @ CHR ''.'' # (?zeros @ ds) @ rest)
                 = Some (Number_of_decimal True s e, rest)"
        using parse_number_parts [OF _ d _ t fr parse_exponent_none [OF rest]]
        by (simp_all only: v len) simp_all
      then show ?thesis by (simp add: shape)
    next
      case exponent
      let ?x = "n - 1"
      let ?exponent = "CHR ''e'' # (if 0 \<le> ?x then CHR ''+'' else CHR ''-'') # decimal_digits \<bar>?x\<bar>"
      have ex: "parse_exponent (?exponent @ rest) = Some (?x, rest)"
        using parse_exponent_signed [OF rest, of ?x] by simp
      show ?thesis
      proof (cases "k = 1")
        case True
        have shape: "format_decimal s e = ds @ ?exponent"
by (simp only: fd if_not_P [OF exponent(1)] if_not_P [OF exponent(2)] if_not_P [OF exponent(3)] if_P [OF True])
        have l: "\<not> (1 < length ds \<and> hd ds = CHR ''0'')" using lead by simp
        have t: "?exponent @ rest = [] \<or> \<not> is_digit (hd (?exponent @ rest))"
          by (simp add: is_digit_def)
        have fr: "parse_fraction (?exponent @ rest) = Some ([], ?exponent @ rest)"
          using parse_fraction_exponent by simp
        have len: "?x - int (length ([] :: string)) = e" using True by (simp add: n_def)
        have p: "parse_number (ds @ ?exponent @ rest) = Some (Number_of_decimal False s e, rest)"
          "parse_number (CHR ''-'' # ds @ ?exponent @ rest) = Some (Number_of_decimal True s e, rest)"
          using parse_number_parts [OF ne dig l t fr ex]
          by (simp_all only: append_Nil2 val len)
        then show ?thesis by (simp add: shape)
      next
        case False
        obtain c u where cu: "ds = c # u" using ne by (cases ds) auto
        have une: "u \<noteq> []" using False k by (auto simp: k_def cu)
        have shape: "format_decimal s e = [c] @ CHR ''.'' # u @ ?exponent"
by (simp only: fd if_not_P [OF exponent(1)] if_not_P [OF exponent(2)] if_not_P [OF exponent(3)] if_not_P [OF False]) (simp add: cu)
        have w: "[c] \<noteq> []" by simp
        have d: "\<forall>a\<in>set [c]. is_digit a" using dig by (simp add: cu)
        have l: "\<not> (1 < length [c] \<and> hd [c] = CHR ''0'')" by simp
        have t: "CHR ''.'' # u @ ?exponent @ rest = []
                 \<or> \<not> is_digit (hd (CHR ''.'' # u @ ?exponent @ rest))"
          by (simp add: is_digit_def)
        have ud: "\<forall>a\<in>set u. is_digit a" using dig by (simp add: cu)
        have et: "?exponent @ rest = [] \<or> \<not> is_digit (hd (?exponent @ rest))"
          by (simp add: is_digit_def)
        have fr: "parse_fraction (CHR ''.'' # u @ ?exponent @ rest) = Some (u, ?exponent @ rest)"
          using une ud et by (rule parse_fraction_digits)
        have v: "int_of_digits ([c] @ u) = s" using val by (simp add: cu)
        have len: "?x - int (length u) = e" by (simp add: n_def k_def cu)
        have p: "parse_number ([c] @ CHR ''.'' # u @ ?exponent @ rest)
                   = Some (Number_of_decimal False s e, rest)"
          "parse_number (CHR ''-'' # [c] @ CHR ''.'' # u @ ?exponent @ rest)
                   = Some (Number_of_decimal True s e, rest)"
          using parse_number_parts [OF w d l t fr ex]
          by (simp_all only: v len)
        then show ?thesis by (simp add: shape)
      qed
    qed
  qed
  from both show "parse_number (format_decimal s e @ rest) = Some (Number_of_decimal False s e, rest)"
    by (rule conjunct1)
  from both show "parse_number (CHR ''-'' # format_decimal s e @ rest)
         = Some (Number_of_decimal True s e, rest)"
    by (rule conjunct2)
qed

lemma is_Number_zero: "is_Number (Dec 0 e) \<Longrightarrow> e = 0"
  by (simp add: Number_of_decimal_def signed_zero_def)

lemma parse_number_zero:
  assumes "number_end rest"
  shows "parse_number (''0'' @ rest) = Some (Dec 0 0, rest)"
proof -
  have d: "\<forall>c\<in>set ''0''. is_digit c" by (simp add: is_digit_def)
  from assms have r: "rest = [] \<or> \<not> is_digit (hd rest)" using number_end_cases by blast
  have "parse_number (''0'' @ rest)
        = Some (Number_of_decimal False (int_of_digits (''0'' @ [])) (0 - int (length ([] :: string))), rest)"
    using parse_number_parts(1) [OF _ d _ r parse_fraction_none [OF assms] parse_exponent_none [OF assms]]
    by simp
  then show ?thesis
    by (simp add: int_of_digits_def digit_val_def Number_of_decimal_def signed_zero_def)
qed

lemma parse_number_toString:
  assumes n: "is_Number (Dec m e)" and rest: "number_end rest"
  shows "parse_number (Number_toString (Dec m e) @ rest) = Some (Dec m e, rest)"
proof -
  consider (zero) "m = 0" | (positive) "0 < m" | (negative) "m < 0" by linarith
  then show ?thesis
  proof cases
    case zero
    with n have "e = 0" using is_Number_zero by simp
    with zero show ?thesis using parse_number_zero [OF rest] by (simp add: Number_toString_def)
  next
    case positive
    with n have "Number_of_decimal False m e = Dec m e" by simp
    with positive show ?thesis
      using parse_number_format_decimal(1) [OF positive rest, of e]
      by (simp add: Number_toString_def)
  next
    case negative
    then have pos: "0 < - m" by simp
    from negative n have "Number_of_decimal True (- m) e = Dec m e" by simp
    with negative show ?thesis
      using parse_number_format_decimal(2) [OF pos rest, of e]
      by (simp add: Number_toString_def)
  qed
qed

lemma Number_toString_start:
  "\<exists>c t. Number_toString (Dec m e) = c # t \<and> (c = CHR ''-'' \<or> is_digit c)"
proof -
  consider (zero) "m = 0" | (positive) "0 < m" | (negative) "m < 0" by linarith
  then show ?thesis
  proof cases
    case zero
    then show ?thesis by (simp add: Number_toString_def is_digit_def)
  next
    case positive
    then show ?thesis using format_decimal_start [OF positive, of e] by (auto simp: Number_toString_def)
  next
    case negative
    then show ?thesis by (simp add: Number_toString_def)
  qed
qed

lemma parse_literal_number:
  "c = CHR ''-'' \<or> is_digit c \<Longrightarrow>
   parse_literal (c # t)
   = (case parse_number (c # t) of None \<Rightarrow> None | Some (n, rest) \<Rightarrow> Some (JNum n, rest))"
  by (auto simp: parse_literal_def is_digit_def)

lemma plain_Number_cases: "plain_Number n \<Longrightarrow> \<exists>m e. n = Dec m e \<and> is_Number (Dec m e)"
  by (cases n) (simp_all add: plain_Number_def)

subsection \<open>JSON values\<close>

lemma skip_ws_ws: "list_all json_ws ws \<Longrightarrow> skip_ws (ws @ s) = skip_ws s"
  by (induction ws) (simp_all add: skip_ws_def)

lemma skip_ws_start: "\<not> json_ws c \<Longrightarrow> skip_ws (c # s) = c # s"
  by (simp add: skip_ws_def)

lemma skip_ws_ws_then:
  "list_all json_ws ws \<Longrightarrow> \<not> json_ws c \<Longrightarrow> skip_ws (ws @ c # s) = c # s"
  by (simp add: skip_ws_ws skip_ws_start)

lemma not_ws_closers:
  "\<not> json_ws (CHR '']'')" "\<not> json_ws (CHR ''}'')" "\<not> json_ws (CHR '','')"
  "\<not> json_ws (CHR '':'')" "\<not> json_ws (CHR 0x22)"
  by (simp_all add: json_ws_def)

lemma indent_ws: "list_all json_ws (indent level)"
  by (simp add: indent_def json_ws_def list_all_iff)

lemma indent_length: "length (indent level) = Suc (2 * level)"
  by (simp add: indent_def)

lemma parse_value_ws:
  "list_all json_ws ws \<Longrightarrow> parse_value fuel (ws @ s) = parse_value fuel s"
  by (cases fuel) (simp_all add: skip_ws_ws)

lemma parse_members_ws:
  "list_all json_ws ws \<Longrightarrow> parse_members fuel (ws @ s) = parse_members fuel s"
  by (cases fuel) (simp_all add: skip_ws_ws)

lemma parse_elements_ws:
  "list_all json_ws ws \<Longrightarrow> parse_elements fuel (ws @ s) = parse_elements fuel s"
  by (cases fuel) (simp_all add: parse_value_ws)

lemma json_ws_number_end: "json_ws c \<Longrightarrow> number_end (c # rest)"
  by (auto simp: number_end_def json_ws_def is_digit_def)

lemma number_end_closers:
  "number_end (CHR '','' # rest)" "number_end (CHR '']'' # rest)" "number_end (CHR ''}'' # rest)"
  by (simp_all add: number_end_def is_digit_def)

lemma number_end_ws_then:
  "list_all json_ws ws \<Longrightarrow> number_end (c # rest) \<Longrightarrow> number_end (ws @ c # rest)"
  by (cases ws) (simp_all add: json_ws_number_end)


lemma is_digit_value_start: "c = CHR ''-'' \<or> is_digit c \<Longrightarrow> value_start c"
  by (auto simp: value_start_def json_ws_def is_digit_def)

lemma JSON_number_start: "\<exists>c t. JSON_number n = c # t \<and> value_start c"
proof (cases n)
  case (Dec m e)
  obtain c t where "Number_toString (Dec m e) = c # t" and "c = CHR ''-'' \<or> is_digit c"
    using Number_toString_start by blast
  with Dec show ?thesis by (simp add: JSON_number_def is_digit_value_start)
qed (simp_all add: JSON_number_def Number_toString_def value_start_def json_ws_def)

lemma stringify_pretty_start:
  "\<exists>c t. stringify_pretty level v = c # t \<and> value_start c"
proof (cases v)
  case (JNum n)
  then show ?thesis using JSON_number_start [of n] by simp
next
  case (JArr xs)
  then show ?thesis by (cases xs) (simp_all add: value_start_def json_ws_def)
next
  case (JObj kvs)
  then show ?thesis by (cases kvs) (simp_all add: value_start_def json_ws_def)
qed (simp_all add: value_start_def json_ws_def quote_def)

lemma parse_value_null: "parse_value (Suc fuel) (''null'' @ rest) = Some (JNull, rest)"
  by (simp add: skip_ws_def json_ws_def parse_literal_def)

lemma parse_value_true: "parse_value (Suc fuel) (''true'' @ rest) = Some (JBool True, rest)"
  by (simp add: skip_ws_def json_ws_def parse_literal_def)

lemma parse_value_false: "parse_value (Suc fuel) (''false'' @ rest) = Some (JBool False, rest)"
  by (simp add: skip_ws_def json_ws_def parse_literal_def)

lemma parse_value_number:
  assumes "plain_Number n" and "number_end rest"
  shows "parse_value (Suc fuel) (JSON_number n @ rest) = Some (JNum n, rest)"
proof -
  obtain m e where n: "n = Dec m e" and ok: "is_Number (Dec m e)"
    using assms(1) plain_Number_cases by blast
  obtain c t where ct: "Number_toString (Dec m e) = c # t" and c: "c = CHR ''-'' \<or> is_digit c"
    using Number_toString_start by blast
  have pr: "JSON_number (Dec m e) = c # t"
    by (simp add: JSON_number_def ct)
  from c have vs: "value_start c" by (rule is_digit_value_start)
  then have sk: "skip_ws (c # t @ rest) = c # t @ rest"
    by (simp add: value_start_def skip_ws_start)
  from c have n1: "c \<noteq> CHR 0x22" and n2: "c \<noteq> CHR ''[''" and n3: "c \<noteq> CHR ''{''"
    by (auto simp: is_digit_def)
  have "parse_value (Suc fuel) (c # t @ rest) = parse_literal (c # t @ rest)"
    by (simp only: parse_value.simps sk list.case n1 n2 n3 if_False)
  also have "\<dots> = (case parse_number (c # t @ rest) of
                      None \<Rightarrow> None | Some (n, rest) \<Rightarrow> Some (JNum n, rest))"
    using c by (rule parse_literal_number)
  also have "\<dots> = Some (JNum (Dec m e), rest)"
    using parse_number_toString [OF ok assms(2)] by (simp add: ct)
  finally show ?thesis by (simp only: n pr append_Cons)
qed

lemma parse_value_string: "parse_value (Suc fuel) (quote s @ rest) = Some (JStr s, rest)"
proof -
  have q: "quote s @ rest = CHR 0x22 # (concat (map escape_char s) @ CHR 0x22 # rest)"
    by (simp add: quote_def)
  have sk: "skip_ws (CHR 0x22 # (concat (map escape_char s) @ CHR 0x22 # rest))
            = CHR 0x22 # (concat (map escape_char s) @ CHR 0x22 # rest)"
    by (simp add: skip_ws_start json_ws_def)
  show ?thesis
    by (simp only: q parse_value.simps sk list.case parse_chars_escaped option.case
        prod.case) simp
qed

lemma parse_value_empty_array: "parse_value (Suc fuel) (''[]'' @ rest) = Some (JArr [], rest)"
  by (simp add: skip_ws_def json_ws_def)

lemma parse_value_empty_object: "parse_value (Suc fuel) (''{}'' @ rest) = Some (JObj [], rest)"
  by (simp add: skip_ws_def json_ws_def)

lemma parse_value_array:
  assumes "skip_ws body = d # ds" and "d \<noteq> CHR '']''"
    and "parse_elements fuel body = Some (xs, rest)"
  shows "parse_value (Suc fuel) (CHR ''['' # body) = Some (JArr xs, rest)"
  using assms by (simp add: skip_ws_start json_ws_def)

lemma obj_set_fresh: "k \<notin> fst ` set ob \<Longrightarrow> obj_set ob k v = ob @ [(k, v)]"
  by (induction ob k v rule: obj_set.induct) auto

lemma foldl_obj_set_distinct:
  "distinct (map fst (ob @ kvs)) \<Longrightarrow>
   foldl (\<lambda>ob kv. obj_set ob (fst kv) (snd kv)) ob kvs = ob @ kvs"
proof (induction kvs arbitrary: ob)
  case Nil
  show ?case by simp
next
  case (Cons kv kvs)
  from Cons.prems have fresh: "fst kv \<notin> fst ` set ob" by auto
  from Cons.prems have "distinct (map fst ((ob @ [kv]) @ kvs))" by simp
  then have "foldl (\<lambda>ob kv. obj_set ob (fst kv) (snd kv)) (ob @ [kv]) kvs = (ob @ [kv]) @ kvs"
    by (rule Cons.IH)
  with fresh show ?case by (simp add: obj_set_fresh)
qed

lemma parse_value_object:
  assumes "skip_ws body = d # ds" and "d \<noteq> CHR ''}''"
    and "parse_members fuel body = Some (kvs, rest)" and "distinct (map fst kvs)"
  shows "parse_value (Suc fuel) (CHR ''{'' # body) = Some (JObj kvs, rest)"
proof -
  have "foldl (\<lambda>ob kv. obj_set ob (fst kv) (snd kv)) [] kvs = kvs"
    using foldl_obj_set_distinct [of "[]" kvs] assms(4) by simp
  with assms(1-3) show ?thesis
    by (simp add: skip_ws_start json_ws_def)
qed

lemma parse_elements_last:
  assumes "parse_value fuel s = Some (x, r)" and "skip_ws r = CHR '']'' # rest"
  shows "parse_elements (Suc fuel) s = Some ([x], rest)"
  using assms by simp

lemma parse_elements_more:
  assumes "parse_value fuel s = Some (x, r)" and "skip_ws r = CHR '','' # cs"
    and "parse_elements fuel cs = Some (xs, rest)"
  shows "parse_elements (Suc fuel) s = Some (x # xs, rest)"
  using assms by simp

lemma parse_members_last:
  assumes "skip_ws s = CHR 0x22 # qs" and "parse_chars qs = Some (k, r1)"
    and "skip_ws r1 = CHR '':'' # cs" and "parse_value fuel cs = Some (v, r2)"
    and "skip_ws r2 = CHR ''}'' # rest"
  shows "parse_members (Suc fuel) s = Some ([(k, v)], rest)"
  using assms by simp

lemma parse_members_more:
  assumes "skip_ws s = CHR 0x22 # qs" and "parse_chars qs = Some (k, r1)"
    and "skip_ws r1 = CHR '':'' # cs" and "parse_value fuel cs = Some (v, r2)"
    and "skip_ws r2 = CHR '','' # ds" and "parse_members fuel ds = Some (kvs, rest)"
  shows "parse_members (Suc fuel) s = Some ((k, v) # kvs, rest)"
  using assms by simp

lemma pretty_elements_start:
  "xs \<noteq> [] \<Longrightarrow> \<exists>d ds. skip_ws (pretty_elements level xs @ r) = d # ds \<and> d \<noteq> CHR '']''"
proof -
  assume "xs \<noteq> []"
  then obtain x t where "pretty_elements level xs = indent level @ stringify_pretty level x @ t"
    by (cases "(level, xs)" rule: pretty_elements.cases) auto
  moreover obtain c u where "stringify_pretty level x = c # u" and "value_start c"
    using stringify_pretty_start by blast
  ultimately have "skip_ws (pretty_elements level xs @ r) = c # u @ t @ r" and "c \<noteq> CHR '']''"
    by (simp_all add: skip_ws_ws indent_ws skip_ws_start value_start_def)
  then show ?thesis by blast
qed

lemma pretty_members_start:
  "kvs \<noteq> [] \<Longrightarrow> \<exists>d ds. skip_ws (pretty_members level kvs @ r) = d # ds \<and> d \<noteq> CHR ''}''"
proof -
  assume "kvs \<noteq> []"
  then obtain k t where "pretty_members level kvs = indent level @ quote k @ t"
    by (cases "(level, kvs)" rule: pretty_members.cases) auto
  then have "skip_ws (pretty_members level kvs @ r)
             = CHR 0x22 # concat (map escape_char k) @ [CHR 0x22] @ t @ r"
    by (simp add: skip_ws_ws indent_ws skip_ws_start quote_def json_ws_def)
  then show ?thesis by simp
qed

text \<open>
  Parsing what the indenting printer wrote gives the value back, with any text left
  after it, as soon as the fuel is at least the length of what was printed.
\<close>

lemma parse_stringify_pretty:
  "distinct_keys v \<Longrightarrow> length (stringify_pretty level v) \<le> fuel \<Longrightarrow> number_end rest \<Longrightarrow>
     list_all plain_Number (numbers_of v) \<Longrightarrow>
     parse_value fuel (stringify_pretty level v @ rest) = Some (v, rest)"
  "xs \<noteq> [] \<Longrightarrow> distinct_keys_elements xs \<Longrightarrow> length (pretty_elements level xs) \<le> fuel \<Longrightarrow>
     list_all json_ws ws \<Longrightarrow> list_all plain_Number (numbers_of_elements xs) \<Longrightarrow>
     parse_elements fuel (pretty_elements level xs @ ws @ CHR '']'' # rest) = Some (xs, rest)"
  "kvs \<noteq> [] \<Longrightarrow> distinct_keys_members kvs \<Longrightarrow> length (pretty_members level kvs) \<le> fuel \<Longrightarrow>
     list_all json_ws ws \<Longrightarrow> list_all plain_Number (numbers_of_members kvs) \<Longrightarrow>
     parse_members fuel (pretty_members level kvs @ ws @ CHR ''}'' # rest) = Some (kvs, rest)"
proof (induction level v and level xs and level kvs
    arbitrary: fuel rest and fuel ws rest and fuel ws rest
    rule: stringify_pretty_pretty_elements_pretty_members.induct)
  case (1 level)
  then obtain f where "fuel = Suc f" by (cases fuel) auto
  then show ?case using parse_value_null by simp
next
  case (2 level b)
  then obtain f where "fuel = Suc f" by (cases fuel) (auto split: if_splits)
  then show ?case using parse_value_true parse_value_false by simp
next
  case (3 level n)
  obtain c t where "JSON_number n = c # t"
    using JSON_number_start by blast
  with 3 obtain f where "fuel = Suc f" by (cases fuel) auto
  with 3 show ?case using parse_value_number by simp
next
  case (4 level s)
  then obtain f where "fuel = Suc f" by (cases fuel) (auto simp: quote_def)
  then show ?case using parse_value_string by simp
next
  case (5 level)
  then obtain f where "fuel = Suc f" by (cases fuel) auto
  then show ?case using parse_value_empty_array by simp
next
  case (6 level x xs)
  let ?body = "pretty_elements (Suc level) (x # xs) @ indent level @ CHR '']'' # rest"
  from "6.prems"(2) obtain f where f: "fuel = Suc f"
    and len: "length (pretty_elements (Suc level) (x # xs)) \<le> f"
    by (cases fuel) auto
  obtain d ds where d: "skip_ws ?body = d # ds" and "d \<noteq> CHR '']''"
    using pretty_elements_start [of "x # xs"] by blast
  moreover have "parse_elements f ?body = Some (x # xs, rest)"
    using "6.prems"(1,4) len by (intro "6.IH") (simp_all add: indent_ws)
  ultimately have "parse_value (Suc f) (CHR ''['' # ?body) = Some (JArr (x # xs), rest)"
    by (rule parse_value_array)
  then show ?case by (simp add: f)
next
  case (7 level)
  then obtain f where "fuel = Suc f" by (cases fuel) auto
  then show ?case using parse_value_empty_object by simp
next
  case (8 level kv kvs)
  let ?body = "pretty_members (Suc level) (kv # kvs) @ indent level @ CHR ''}'' # rest"
  from "8.prems"(2) obtain f where f: "fuel = Suc f"
    and len: "length (pretty_members (Suc level) (kv # kvs)) \<le> f"
    by (cases fuel) auto
  obtain d ds where d: "skip_ws ?body = d # ds" and "d \<noteq> CHR ''}''"
    using pretty_members_start [of "kv # kvs"] by blast
  moreover have "parse_members f ?body = Some (kv # kvs, rest)"
    using "8.prems"(1,4) len by (intro "8.IH") (simp_all add: indent_ws)
  moreover have "distinct (map fst (kv # kvs))"
    using "8.prems"(1) by simp
  ultimately have "parse_value (Suc f) (CHR ''{'' # ?body) = Some (JObj (kv # kvs), rest)"
    by (rule parse_value_object)
  then show ?case by (simp add: f)
next
  case (9 level)
  then show ?case by simp
next
  case (10 level x)
  let ?r = "ws @ CHR '']'' # rest"
  from "10.prems"(3) obtain f where f: "fuel = Suc f"
    and len: "length (stringify_pretty level x) \<le> f"
    by (cases fuel) (auto simp: indent_length)
  have "parse_value f (stringify_pretty level x @ ?r) = Some (x, ?r)"
    using "10.prems"(2,4,5) len
    by (intro "10.IH") (simp_all add: number_end_ws_then number_end_closers)
  then have "parse_value f (indent level @ stringify_pretty level x @ ?r) = Some (x, ?r)"
    by (simp add: parse_value_ws indent_ws)
  moreover have "skip_ws ?r = CHR '']'' # rest"
    using "10.prems"(4) by (simp add: skip_ws_ws_then not_ws_closers)
  ultimately have "parse_elements (Suc f) (indent level @ stringify_pretty level x @ ?r)
                   = Some ([x], rest)"
    by (rule parse_elements_last)
  then show ?case by (simp add: f)
next
  case (11 level x y ys)
  let ?more = "pretty_elements level (y # ys) @ ws @ CHR '']'' # rest"
  let ?r = "CHR '','' # ?more"
  from "11.prems"(3) obtain f where f: "fuel = Suc f"
    and len: "length (stringify_pretty level x) \<le> f"
    and len': "length (pretty_elements level (y # ys)) \<le> f"
    by (cases fuel) (auto simp: indent_length)
  have "parse_value f (stringify_pretty level x @ ?r) = Some (x, ?r)"
    using "11.prems"(2,5) len
    by (intro "11.IH"(1)) (simp_all add: number_end_closers)
  then have "parse_value f (indent level @ stringify_pretty level x @ ?r) = Some (x, ?r)"
    by (simp add: parse_value_ws indent_ws)
  moreover have "skip_ws ?r = CHR '','' # ?more"
    by (simp add: skip_ws_start json_ws_def)
  moreover have "parse_elements f ?more = Some (y # ys, rest)"
    using "11.prems"(2,4,5) len' by (intro "11.IH"(2)) simp_all
  ultimately have "parse_elements (Suc f) (indent level @ stringify_pretty level x @ ?r)
                   = Some (x # y # ys, rest)"
    by (rule parse_elements_more)
  then show ?case by (simp add: f)
next
  case (12 level)
  then show ?case by simp
next
  case (13 level k v)
  let ?r = "ws @ CHR ''}'' # rest"
  let ?after_key = "CHR '':'' # CHR '' '' # stringify_pretty level v @ ?r"
  let ?text = "indent level @ quote k @ ?after_key"
  from "13.prems"(3) obtain f where f: "fuel = Suc f"
    and len: "length (stringify_pretty level v) \<le> f"
    by (cases fuel) (auto simp: indent_length)
  have s1: "skip_ws ?text = CHR 0x22 # (concat (map escape_char k) @ CHR 0x22 # ?after_key)"
    by (simp add: skip_ws_ws indent_ws skip_ws_start quote_def json_ws_def)
  have s2: "parse_chars (concat (map escape_char k) @ CHR 0x22 # ?after_key) = Some (k, ?after_key)"
    by (rule parse_chars_escaped)
  have s3: "skip_ws ?after_key = CHR '':'' # (CHR '' '' # stringify_pretty level v @ ?r)"
    by (simp add: skip_ws_start json_ws_def)
  have "parse_value f (stringify_pretty level v @ ?r) = Some (v, ?r)"
    using "13.prems"(2,4,5) len
    by (intro "13.IH") (simp_all add: number_end_ws_then number_end_closers)
  then have s4: "parse_value f (CHR '' '' # stringify_pretty level v @ ?r) = Some (v, ?r)"
    using parse_value_ws [of "[CHR '' '']" f "stringify_pretty level v @ ?r"]
    by (simp add: json_ws_def)
  have s5: "skip_ws ?r = CHR ''}'' # rest"
    using "13.prems"(4) by (simp add: skip_ws_ws_then not_ws_closers)
  from s1 s2 s3 s4 s5 have "parse_members (Suc f) ?text = Some ([(k, v)], rest)"
    by (rule parse_members_last)
  then show ?case by (simp add: f)
next
  case (14 level k v kv kvs)
  let ?more = "pretty_members level (kv # kvs) @ ws @ CHR ''}'' # rest"
  let ?r = "CHR '','' # ?more"
  let ?after_key = "CHR '':'' # CHR '' '' # stringify_pretty level v @ ?r"
  let ?text = "indent level @ quote k @ ?after_key"
  from "14.prems"(3) obtain f where f: "fuel = Suc f"
    and len: "length (stringify_pretty level v) \<le> f"
    and len': "length (pretty_members level (kv # kvs)) \<le> f"
    by (cases fuel) (auto simp: indent_length)
  have s1: "skip_ws ?text = CHR 0x22 # (concat (map escape_char k) @ CHR 0x22 # ?after_key)"
    by (simp add: skip_ws_ws indent_ws skip_ws_start quote_def json_ws_def)
  have s2: "parse_chars (concat (map escape_char k) @ CHR 0x22 # ?after_key) = Some (k, ?after_key)"
    by (rule parse_chars_escaped)
  have s3: "skip_ws ?after_key = CHR '':'' # (CHR '' '' # stringify_pretty level v @ ?r)"
    by (simp add: skip_ws_start json_ws_def)
  have "parse_value f (stringify_pretty level v @ ?r) = Some (v, ?r)"
    using "14.prems"(2,5) len
    by (intro "14.IH"(1)) (simp_all add: number_end_closers)
  then have s4: "parse_value f (CHR '' '' # stringify_pretty level v @ ?r) = Some (v, ?r)"
    using parse_value_ws [of "[CHR '' '']" f "stringify_pretty level v @ ?r"]
    by (simp add: json_ws_def)
  have s5: "skip_ws ?r = CHR '','' # ?more"
    by (simp add: skip_ws_start json_ws_def)
  have s6: "parse_members f ?more = Some (kv # kvs, rest)"
    using "14.prems"(2,4,5) len' by (intro "14.IH"(2)) simp_all
  from s1 s2 s3 s4 s5 s6 have "parse_members (Suc f) ?text = Some ((k, v) # kv # kvs, rest)"
    by (rule parse_members_more)
  then show ?case by (simp add: f)
qed

text \<open>
  Both printers write a value and the value its reader sees alike, and the keys of
  the objects stay as they are.
\<close>

lemma JSON_number_as_json:
  "JSON_stringify (as_json_number n) = JSON_number n"
  "stringify_pretty level (as_json_number n) = JSON_number n"
  by (cases n; simp add: as_json_number_def JSON_number_def Number_toString_def)+

lemma JSON_stringify_as_json:
  "JSON_stringify (as_json v) = JSON_stringify v"
  "stringify_elements (as_json_elements xs) = stringify_elements xs"
  "stringify_members (as_json_members kvs) = stringify_members kvs"
  by (induction v and xs and kvs rule: JSON_stringify_stringify_elements_stringify_members.induct)
     (simp_all add: JSON_number_as_json)

lemma stringify_pretty_as_json:
  "stringify_pretty level (as_json v) = stringify_pretty level v"
  "pretty_elements level (as_json_elements xs) = pretty_elements level xs"
  "pretty_members level (as_json_members kvs) = pretty_members level kvs"
  by (induction level v and level xs and level kvs
      rule: stringify_pretty_pretty_elements_pretty_members.induct)
     (simp_all add: JSON_number_as_json)

lemma as_json_members_keys: "map fst (as_json_members kvs) = map fst kvs"
  by (induction kvs) simp_all

lemma distinct_keys_as_json:
  "distinct_keys v \<Longrightarrow> distinct_keys (as_json v)"
  "distinct_keys_elements xs \<Longrightarrow> distinct_keys_elements (as_json_elements xs)"
  "distinct_keys_members kvs \<Longrightarrow> distinct_keys_members (as_json_members kvs)"
  by (induction v and xs and kvs rule: as_json_as_json_elements_as_json_members.induct)
     (simp_all add: as_json_members_keys as_json_number_def)

lemma plain_Number_as_json_number:
  "is_Number n \<Longrightarrow> list_all plain_Number (numbers_of (as_json_number n))"
  by (cases n)
     (simp_all add: as_json_number_def plain_Number_def Number_of_decimal_def signed_zero_def)

lemma plain_Number_as_json:
  "list_all is_Number (numbers_of v) \<Longrightarrow> list_all plain_Number (numbers_of (as_json v))"
  "list_all is_Number (numbers_of_elements xs) \<Longrightarrow>
     list_all plain_Number (numbers_of_elements (as_json_elements xs))"
  "list_all is_Number (numbers_of_members kvs) \<Longrightarrow>
     list_all plain_Number (numbers_of_members (as_json_members kvs))"
  by (induction v and xs and kvs rule: as_json_as_json_elements_as_json_members.induct)
     (simp_all add: plain_Number_as_json_number)

text \<open>
  \<^verbatim>\<open>JSON.parse\<close> of \<^verbatim>\<open>JSON.stringify(value, null, 2)\<close> is the value, for a value
  whose numbers are finite and not the negative zero; for any value, it is the value
  its reader sees.
\<close>

lemma JSON_parse_stringify_indent2_plain:
  "distinct_keys v \<Longrightarrow> list_all plain_Number (numbers_of v) \<Longrightarrow>
   JSON_parse (JSON_stringify_indent2 v) = Some v"
  using parse_stringify_pretty(1) [of v 0 "Suc (length (stringify_pretty 0 v))" "[]"]
  by (simp add: JSON_parse_def JSON_stringify_indent2_def number_end_def skip_ws_def)

lemma JSON_parse_stringify_indent2:
  assumes "distinct_keys v" and "list_all is_Number (numbers_of v)"
  shows "JSON_parse (JSON_stringify_indent2 v) = Some (as_json v)"
proof -
  have "JSON_parse (JSON_stringify_indent2 (as_json v)) = Some (as_json v)"
    using assms by (intro JSON_parse_stringify_indent2_plain distinct_keys_as_json(1)
        plain_Number_as_json(1))
  then show ?thesis
    by (simp add: JSON_stringify_indent2_def stringify_pretty_as_json)
qed

subsection \<open>Objects keep their keys distinct\<close>

lemma distinct_keys_elements_iff:
  "distinct_keys_elements xs \<longleftrightarrow> (\<forall>x\<in>set xs. distinct_keys x)"
  by (induction xs) simp_all

lemma distinct_keys_members_iff:
  "distinct_keys_members kvs \<longleftrightarrow> (\<forall>kv\<in>set kvs. distinct_keys (snd kv))"
  by (induction kvs) simp_all

lemma str_or_null_distinct_keys: "distinct_keys (str_or_null s)"
  by (simp add: str_or_null_def js_or_def split: option.splits)

lemma joined_or_null_distinct_keys: "distinct_keys (joined_or_null t)"
  by (simp add: joined_or_null_def js_or_def split: option.splits)

lemma strs_or_empty_distinct_keys: "distinct_keys (strs_or_empty xs)"
  by (auto simp: strs_or_empty_def distinct_keys_elements_iff split: option.splits)

lemma extractFile_distinct_keys: "distinct_keys (extractFile f)"
  by (simp add: extractFile_def js_or_def str_or_null_distinct_keys)

lemma extractPropertyValue_distinct_keys: "distinct_keys (extractPropertyValue p)"
proof (induction p)
  case (PRollup items n)
  show ?case
  proof (cases items)
    case None
    then show ?thesis by (simp add: num_or_null_def js_or_def split: option.splits)
  next
    case (Some xs)
    have "distinct_keys (extractPropertyValue x)" if "x \<in> set xs" for x
      using that Some PRollup.IH [of xs x] by simp
    with Some show ?thesis
      by (simp only: rollup_item_uniform extractPropertyValue.simps)
         (auto simp: distinct_keys_elements_iff)
  qed
next
  case (PFiles fs)
  then show ?case
    by (auto simp: distinct_keys_elements_iff extractFile_distinct_keys split: option.splits)
qed (simp_all add: str_or_null_distinct_keys joined_or_null_distinct_keys
      strs_or_empty_distinct_keys date_start_or_null_def num_or_null_def js_or_def
      extractFormula_def split: option.splits formula.splits)

lemma obj_set_members: "set (obj_set ev k v) \<subseteq> insert (k, v) (set ev)"
  by (induction ev k v rule: obj_set.induct) auto

lemma obj_set_map_fst:
  "map fst (obj_set ev k v) = (if k \<in> fst ` set ev then map fst ev else map fst ev @ [k])"
  by (induction ev k v rule: obj_set.induct) auto

lemma distinct_event_iff:
  "distinct_event ev \<longleftrightarrow> distinct (map fst ev) \<and> (\<forall>kv\<in>set ev. distinct_keys (snd kv))"
  by (simp add: distinct_event_def distinct_keys_members_iff)

lemma obj_set_distinct_event:
  assumes "distinct_event ev" and "distinct_keys v"
  shows "distinct_event (obj_set ev k v)"
proof -
  from assms(1) have "distinct (map fst (obj_set ev k v))"
    by (auto simp: obj_set_map_fst distinct_event_iff)
  moreover from assms have "\<forall>kv\<in>set (obj_set ev k v). distinct_keys (snd kv)"
    using obj_set_members [of ev k v] by (auto simp: distinct_event_iff)
  ultimately show ?thesis by (simp add: distinct_event_iff)
qed

lemma obj_delete_distinct_event:
  "distinct_event ev \<Longrightarrow> distinct_event (obj_delete ev k)"
  by (auto simp: obj_delete_def distinct_event_iff distinct_map_filter)

lemma collect_property_distinct_event:
  "distinct_event ev \<Longrightarrow> distinct_event (collect_property ex ev kp)"
  by (simp add: collect_property_def Let_def obj_set_distinct_event
      extractPropertyValue_distinct_keys)

lemma foldl_collect_property_distinct_event:
  "distinct_event ev \<Longrightarrow> distinct_event (foldl (collect_property ex) ev kps)"
  by (induction kps arbitrary: ev) (simp_all add: collect_property_distinct_event)

lemma formatDatePretty_distinct_keys:
  "formatDatePretty fmt d = Inr p \<Longrightarrow> distinct_keys p"
  by (auto simp: formatDatePretty_def split: if_splits option.splits)

lemma set_datePretty_distinct_event:
  "distinct_event ev \<Longrightarrow> formatDatePretty fmt d = Inr p \<Longrightarrow>
   distinct_event (obj_set ev ''datePretty'' p)"
  by (intro obj_set_distinct_event) (auto dest: formatDatePretty_distinct_keys)

lemma add_datePretty_distinct_event:
  assumes "add_datePretty fmt ev = Inr ev'" and "distinct_event ev"
  shows "distinct_event ev'"
proof -
  define first where "first =
    (case map_of ev ''Date'' of
       Some d \<Rightarrow>
         (if truthy d
          then (case formatDatePretty fmt d of
                  Inl e \<Rightarrow> Inl e
                | Inr p \<Rightarrow> Inr (obj_set ev ''datePretty'' p))
          else Inr ev)
     | None \<Rightarrow> Inr ev)"
  from assms(1) obtain ev1 where f: "first = Inr ev1"
    by (cases first) (simp_all add: add_datePretty_def first_def [symmetric])
  have 1: "distinct_event ev1"
    using f assms(2) unfolding first_def
    by (auto split: option.splits if_splits sum.splits intro: set_datePretty_distinct_event)
  from assms(1) f
  have "ev' = ev1 \<or> (\<exists>d p. formatDatePretty fmt d = Inr p \<and> ev' = obj_set ev1 ''datePretty'' p)"
    by (auto simp: add_datePretty_def first_def [symmetric]
        split: option.splits if_splits sum.splits)
  with 1 show ?thesis
    by (auto intro: set_datePretty_distinct_event)
qed

lemma mapEvent_distinct_event:
  assumes "mapEvent fmt pg = Inr ev"
  shows "distinct_event ev"
proof -
  let ?e0 = "foldl (collect_property excludedProperties) [] (properties pg)"
  let ?e3 = "obj_delete (obj_delete (obj_delete ?e0 ''Place Name'') ''Place Link'') ''Place''"
  have "distinct_event []" by (simp add: distinct_event_iff)
  then have "distinct_event ?e0" by (rule foldl_collect_property_distinct_event)
  then have "distinct_event ?e3" by (intro obj_delete_distinct_event)
  moreover from assms have "add_datePretty fmt ?e3 = Inr ev"
    by (simp add: mapEvent_def Let_def)
  ultimately show ?thesis by (rule add_datePretty_distinct_event [rotated])
qed

lemma mapEvent_scripts_distinct_event:
  assumes "mapEvent_scripts fmt pg = Inr ev"
  shows "distinct_event ev"
proof -
  let ?e0 = "foldl (collect_property excludedProperties_scripts) [] (properties pg)"
  have "distinct_event []" by (simp add: distinct_event_iff)
  then have "distinct_event ?e0" by (rule foldl_collect_property_distinct_event)
  moreover from assms have "add_datePretty fmt ?e0 = Inr ev"
    by (simp add: mapEvent_scripts_def Let_def)
  ultimately show ?thesis by (rule add_datePretty_distinct_event [rotated])
qed

lemma map_result_all:
  "map_result f xs = Inr ys \<Longrightarrow> (\<And>x y. f x = Inr y \<Longrightarrow> P y) \<Longrightarrow> \<forall>y\<in>set ys. P y"
  by (induction xs arbitrary: ys) (auto split: sum.splits)

text \<open>
  Every collection that a run publishes satisfies the invariant of objects, in both
  copies of the script.
\<close>

lemma published_distinct_keys:
  "map_result (mapEvent fmt) pages = Inr events \<Longrightarrow>
   distinct_keys (events_value (validEvents events))"
  "map_result (mapEvent_scripts fmt) pages = Inr events' \<Longrightarrow>
   distinct_keys (events_value (validEvents events'))"
proof -
  assume "map_result (mapEvent fmt) pages = Inr events"
  then have "\<forall>ev\<in>set events. distinct_event ev"
    by (rule map_result_all) (rule mapEvent_distinct_event)
  then show "distinct_keys (events_value (validEvents events))"
    by (simp add: events_value_def validEvents_def distinct_keys_elements_iff
        distinct_event_def)
next
  assume "map_result (mapEvent_scripts fmt) pages = Inr events'"
  then have "\<forall>ev\<in>set events'. distinct_event ev"
    by (rule map_result_all) (rule mapEvent_scripts_distinct_event)
  then show "distinct_keys (events_value (validEvents events'))"
    by (simp add: events_value_def validEvents_def distinct_keys_elements_iff
        distinct_event_def)
qed

subsection \<open>Change detection\<close>

text \<open>Numbers and texts at work.\<close>

lemma Number_examples:
  "list_all is_Number
     [Dec 45 (- 1), Dec 1 (- 1), Dec 1 21, Dec 12 2, Dec (- 125) (- 9), Dec 3 0,
      Dec 9007199254740992 0, Dec 30000000000000004 (- 17)]"
  "map (Number_of_decimal False 9007199254740993) [0] = [Dec 9007199254740992 0]"
  "map (Number_of_decimal False 1) [309] = [Pos_infinity]"
  by code_simp+

lemma JSON_number_examples:
  "map JSON_number
     [Dec 45 (- 1), Dec 1 21, Dec 1 20, Dec 1 (- 7), Dec 1 (- 6), Dec 12 2, Neg_zero,
      Pos_infinity, Dec (- 125) (- 9), Dec 30000000000000004 (- 17)]
   = [''4.5'', ''1e+21'', ''100000000000000000000'', ''1e-7'', ''0.000001'', ''1200'', ''0'',
      ''null'', ''-1.25e-7'', ''0.30000000000000004'']"
  by code_simp

lemma JSON_parse_examples:
  "JSON_parse ''[4.5, 1E3, -0, 0.10, 1e-7, 12.5e+2]''
   = Some (JArr [JNum (Dec 45 (- 1)), JNum (Dec 1 3), JNum Neg_zero, JNum (Dec 1 (- 1)),
                 JNum (Dec 1 (- 7)), JNum (Dec 125 1)])"
  "map JSON_parse [''01'', ''1.'', ''.5'', ''1e'', ''-'', ''+1'', ''[1,]'', ''0x10'']
   = [None, None, None, None, None, None, None, None]"
  by code_simp+

text \<open>
  C9. Once a collection has been written to the artifact with
  \<^verbatim>\<open>JSON.stringify(validEvents, null, 2)\<close>, \<^verbatim>\<open>getExistingEventsHash\<close> reads the file,
  parses it, and returns the digest that \<^verbatim>\<open>computeEventsHash\<close> gives for the
  collection in memory. The collection is any array of events whose objects have
  distinct keys, as every JavaScript object has, and whose numbers are doubles: finite
  ones with or without a fraction, in plain or exponent notation, the negative zero and
  the infinities.
\<close>

theorem getExistingEventsHash_after_write_C9:
  assumes "distinct_keys (events_value events)"
    and "list_all is_Number (numbers_of (events_value events))"
    and "writeFile fs ''public/events.json'' (JSON_stringify_indent2 (events_value events)) = Inr fs'"
  shows "getExistingEventsHash sha256_hex fs'
         = Inr (Some (computeEventsHash sha256_hex (events_value events)))"
proof -
  from assms(3)
  have "fs' ''public/events.json'' = Text (JSON_stringify_indent2 (events_value events))"
    by (auto simp: writeFile_def split: node.splits)
  moreover have "JSON_parse (JSON_stringify_indent2 (events_value events))
                 = Some (as_json (events_value events))"
    using assms(1,2) by (rule JSON_parse_stringify_indent2)
  moreover have "computeEventsHash sha256_hex (as_json (events_value events))
                 = computeEventsHash sha256_hex (events_value events)"
    by (simp add: computeEventsHash_def JSON_stringify_as_json)
  ultimately show ?thesis
    by (simp add: getExistingEventsHash_def readFile_def)
qed

theorem getExistingEventsHash_after_write_C9_witness:
  "getExistingEventsHash toy_digest
     ((files_of [])(''public/events.json'' :=
        Text (JSON_stringify_indent2
          (events_value
             [[(''Name'', JStr ''A''), (''Date'', JStr ''2099-01-01''),
          (''Price'', JNum (Dec 45 (- 1))), (''Seats'', JNum (Dec 12 2)),
          (''Tags'', JArr [JStr ''x'', JNum (Dec 1 21), JNum (Dec (- 125) (- 9)),
                           JNum Neg_zero, JNum Pos_infinity])]]))))
   = Inr (Some (computeEventsHash toy_digest
       (events_value
          [[(''Name'', JStr ''A''), (''Date'', JStr ''2099-01-01''),
          (''Price'', JNum (Dec 45 (- 1))), (''Seats'', JNum (Dec 12 2)),
          (''Tags'', JArr [JStr ''x'', JNum (Dec 1 21), JNum (Dec (- 125) (- 9)),
                           JNum Neg_zero, JNum Pos_infinity])]])))"
proof -
  let ?events = "[[(''Name'', JStr ''A''), (''Date'', JStr ''2099-01-01''),
          (''Price'', JNum (Dec 45 (- 1))), (''Seats'', JNum (Dec 12 2)),
          (''Tags'', JArr [JStr ''x'', JNum (Dec 1 21), JNum (Dec (- 125) (- 9)),
                           JNum Neg_zero, JNum Pos_infinity])]]"
  have d: "distinct_keys (events_value ?events)"
    by (simp add: events_value_def)
  have n: "list_all is_Number (numbers_of (events_value ?events))"
    by code_simp
  have w: "writeFile (files_of []) ''public/events.json''
             (JSON_stringify_indent2 (events_value ?events))
           = Inr ((files_of [])(''public/events.json'' :=
               Text (JSON_stringify_indent2 (events_value ?events))))"
    by (simp add: writeFile_def files_of_def)
  from getExistingEventsHash_after_write_C9 [OF d n w] show ?thesis .
qed

lemma record_checkpoint_writable:
  assumes "writable fs ''.last-sync''"
  shows "\<exists>fs' ws. record_checkpoint fs ts = Inr (fs', ws)
           \<and> fs' ''public/events.json'' = fs ''public/events.json''
           \<and> ''public/events.json'' \<notin> set ws"
  using assms
  by (auto simp: record_checkpoint_def writeFile_def writable_def
      split: option.splits node.splits)

lemma ensure_dir_writable: "writable fs path \<Longrightarrow> ensure_dir fs path = Inr fs"
  by (auto simp: ensure_dir_def writable_def split: node.splits)

lemma writeFile_writable:
  "writable fs path \<Longrightarrow> writeFile fs path content = Inr (fs(path := Text content))"
  by (auto simp: writeFile_def writable_def split: node.splits)

lemma publish_if_changed_unchanged:
  assumes "getExistingEventsHash sha256_hex fs = Inr (Some digest)" and "digest \<noteq> []"
    and "digest = computeEventsHash sha256_hex (events_value valid)"
    and "writable fs ''.last-sync''"
  shows "exit_code (publish_if_changed sha256_hex fs valid ts) = 0"
    and "files (publish_if_changed sha256_hex fs valid ts) ''public/events.json''
         = fs ''public/events.json''"
    and "''public/events.json'' \<notin> set (written (publish_if_changed sha256_hex fs valid ts))"
proof -
  obtain fs' ws where rc: "record_checkpoint fs ts = Inr (fs', ws)"
    and same: "fs' ''public/events.json'' = fs ''public/events.json''"
    and nw: "''public/events.json'' \<notin> set ws"
    using record_checkpoint_writable [OF assms(4)] by blast
  have run: "publish_if_changed sha256_hex fs valid ts
             = \<lparr>exit_code = 0, files = fs', written = ws\<rparr>"
    using assms(1,2,3) rc by (simp add: publish_if_changed_def Let_def present_def)
  show "exit_code (publish_if_changed sha256_hex fs valid ts) = 0"
    and "files (publish_if_changed sha256_hex fs valid ts) ''public/events.json''
         = fs ''public/events.json''"
    and "''public/events.json'' \<notin> set (written (publish_if_changed sha256_hex fs valid ts))"
    using same nw by (simp_all add: run)
qed

lemma publish_if_changed_changed:
  assumes "getExistingEventsHash sha256_hex fs = Inr previous"
    and "previous = None \<or> previous \<noteq> Some (computeEventsHash sha256_hex (events_value valid))"
    and "writable fs ''public''" and "writable fs ''public/events.json''"
  shows "''public/events.json'' \<in> set (written (publish_if_changed sha256_hex fs valid ts))"
    and "files (publish_if_changed sha256_hex fs valid ts) ''public/events.json''
         = Text (JSON_stringify_indent2 (events_value valid))"
proof -
  let ?text = "JSON_stringify_indent2 (events_value valid)"
  let ?fs2 = "fs(''public/events.json'' := Text ?text)"
  have w: "writeFile fs ''public/events.json'' ?text = Inr ?fs2"
    using assms(4) by (rule writeFile_writable)
  have cond: "\<not> (present previous
               \<and> Some (computeEventsHash sha256_hex (events_value valid)) = previous)"
    using assms(2) by (auto simp: present_def)
  have keep: "fs3 ''public/events.json'' = Text ?text"
    if "record_checkpoint ?fs2 ts = Inr (fs3, ws)" for fs3 ws
    using that
    by (auto simp: record_checkpoint_def writeFile_def split: option.splits node.splits if_splits)
  have run: "publish_if_changed sha256_hex fs valid ts
        = (case record_checkpoint ?fs2 ts of
             Inl err \<Rightarrow> \<lparr>exit_code = 1, files = ?fs2, written = [''public/events.json'']\<rparr>
           | Inr (fs3, ws) \<Rightarrow>
               \<lparr>exit_code = 0, files = fs3, written = ''public/events.json'' # ws\<rparr>)"
    by (simp only: publish_if_changed_def Let_def assms(1) sum.case if_not_P [OF cond]
        ensure_dir_writable [OF assms(3)] w)
  show "''public/events.json'' \<in> set (written (publish_if_changed sha256_hex fs valid ts))"
    unfolding run by (simp split: sum.splits prod.splits)
  show "files (publish_if_changed sha256_hex fs valid ts) ''public/events.json'' = Text ?text"
    unfolding run using keep by (auto split: sum.splits prod.splits)
qed

lemma publish_if_changed_changed_exit:
  assumes "getExistingEventsHash sha256_hex fs = Inr previous"
    and "previous = None \<or> previous \<noteq> Some (computeEventsHash sha256_hex (events_value valid))"
    and "writable fs ''public''" and "writable fs ''public/events.json''"
    and "writable fs ''.last-sync''"
  shows "exit_code (publish_if_changed sha256_hex fs valid ts) = 0"
proof -
  let ?text = "JSON_stringify_indent2 (events_value valid)"
  let ?fs2 = "fs(''public/events.json'' := Text ?text)"
  have w: "writeFile fs ''public/events.json'' ?text = Inr ?fs2"
    using assms(4) by (rule writeFile_writable)
  have cond: "\<not> (present previous
               \<and> Some (computeEventsHash sha256_hex (events_value valid)) = previous)"
    using assms(2) by (auto simp: present_def)
  have run: "publish_if_changed sha256_hex fs valid ts
        = (case record_checkpoint ?fs2 ts of
             Inl err \<Rightarrow> \<lparr>exit_code = 1, files = ?fs2, written = [''public/events.json'']\<rparr>
           | Inr (fs3, ws) \<Rightarrow>
               \<lparr>exit_code = 0, files = fs3, written = ''public/events.json'' # ws\<rparr>)"
    by (simp only: publish_if_changed_def Let_def assms(1) sum.case if_not_P [OF cond]
        ensure_dir_writable [OF assms(3)] w)
  have "writable ?fs2 ''.last-sync''"
    using assms(5) by (simp add: writable_def)
  then obtain fs3 ws where "record_checkpoint ?fs2 ts = Inr (fs3, ws)"
    using record_checkpoint_writable by blast
  then show ?thesis by (simp add: run)
qed

text \<open>
  C3. Let the previous digest have been read from the artifact (\<open>None\<close> when there is
  none), a digest being a non-empty text, and let the output directory, the artifact
  and the checkpoint file be writable. Then the run writes the artifact exactly when
  there is no previous digest or it differs from the new one. In that case the run
  exits with code 0 and the artifact holds the new collection afterwards; with equal
  digests the run exits with code 0 as well, and the artifact is as it was.
\<close>

theorem publish_if_changed_C3:
  assumes "getExistingEventsHash sha256_hex fs = Inr previousDigest"
    and "previousDigest \<noteq> Some []"
    and "writable fs ''public''" and "writable fs ''public/events.json''"
    and "writable fs ''.last-sync''"
  shows "(''public/events.json''
            \<in> set (written (publish_if_changed sha256_hex fs valid databaseLastEdited))
          \<longleftrightarrow> previousDigest = None
              \<or> previousDigest \<noteq> Some (computeEventsHash sha256_hex (events_value valid)))
       \<and> (previousDigest = None
            \<or> previousDigest \<noteq> Some (computeEventsHash sha256_hex (events_value valid)) \<longrightarrow>
            exit_code (publish_if_changed sha256_hex fs valid databaseLastEdited) = 0
            \<and> files (publish_if_changed sha256_hex fs valid databaseLastEdited) ''public/events.json''
              = Text (JSON_stringify_indent2 (events_value valid)))
       \<and> (previousDigest = Some (computeEventsHash sha256_hex (events_value valid)) \<longrightarrow>
            exit_code (publish_if_changed sha256_hex fs valid databaseLastEdited) = 0
            \<and> files (publish_if_changed sha256_hex fs valid databaseLastEdited) ''public/events.json''
              = fs ''public/events.json'')"
proof (cases "previousDigest = None
    \<or> previousDigest \<noteq> Some (computeEventsHash sha256_hex (events_value valid))")
  case True
  from publish_if_changed_changed [OF assms(1) True assms(3,4), of databaseLastEdited]
    publish_if_changed_changed_exit [OF assms(1) True assms(3,4,5), of databaseLastEdited] True
  show ?thesis by auto
next
  case False
  then have eq: "previousDigest = Some (computeEventsHash sha256_hex (events_value valid))"
    by simp
  with assms(2) have ne: "computeEventsHash sha256_hex (events_value valid) \<noteq> []"
    by auto
  from publish_if_changed_unchanged [OF assms(1) [unfolded eq] ne refl assms(5),
      of databaseLastEdited] eq
  show ?thesis by auto
qed

theorem publish_if_changed_C3_witness:
  "(let new = [[(''Name'', JStr ''A''), (''Date'', JStr ''2099-01-01''),
               (''Price'', JNum (Dec 45 (- 1)))]];
        ts = Some ''2025-01-10T10:00:00.000Z'';
        none = files_of [];
        same = files_of [(''public/events.json'', JSON_stringify_indent2 (events_value new))];
        other = files_of [(''public/events.json'', ''[]'')]
    in (''public/events.json'' \<in> set (written (publish_if_changed toy_digest none new ts))
        \<and> exit_code (publish_if_changed toy_digest none new ts) = 0
        \<and> files (publish_if_changed toy_digest none new ts) ''public/events.json''
          = Text (JSON_stringify_indent2 (events_value new)))
     \<and> (''public/events.json'' \<notin> set (written (publish_if_changed toy_digest same new ts))
        \<and> exit_code (publish_if_changed toy_digest same new ts) = 0
        \<and> files (publish_if_changed toy_digest same new ts) ''public/events.json''
          = same ''public/events.json'')
     \<and> (''public/events.json'' \<in> set (written (publish_if_changed toy_digest other new ts))
        \<and> exit_code (publish_if_changed toy_digest other new ts) = 0
        \<and> files (publish_if_changed toy_digest other new ts) ''public/events.json''
          = Text (JSON_stringify_indent2 (events_value new))
        \<and> other ''public/events.json'' = Text ''[]''))"
proof -
  let ?new = "[[(''Name'', JStr ''A''), (''Date'', JStr ''2099-01-01''),
               (''Price'', JNum (Dec 45 (- 1)))]]"
  let ?ts = "Some ''2025-01-10T10:00:00.000Z''"
  let ?none = "files_of []"
  let ?same = "files_of [(''public/events.json'', JSON_stringify_indent2 (events_value ?new))]"
  let ?other = "files_of [(''public/events.json'', ''[]'')]"
  let ?digest = "computeEventsHash toy_digest (events_value ?new)"
  have d: "distinct_keys (events_value ?new)"
    by (simp add: events_value_def)
  have n: "list_all is_Number (numbers_of (events_value ?new))"
    by code_simp
  have p: "JSON_parse (JSON_stringify_indent2 (events_value ?new)) = Some (as_json (events_value ?new))"
    using d n by (rule JSON_parse_stringify_indent2)
  have p0: "JSON_parse ''[]'' = Some (JArr [])"
    by (simp add: JSON_parse_def skip_ws_def json_ws_def)
  have h0: "getExistingEventsHash toy_digest ?none = Inr None"
    by (simp add: getExistingEventsHash_def readFile_def files_of_def)
  have h1: "getExistingEventsHash toy_digest ?same = Inr (Some ?digest)"
    by (simp add: getExistingEventsHash_def readFile_def files_of_def p computeEventsHash_def
        JSON_stringify_as_json)
  have h2: "getExistingEventsHash toy_digest ?other = Inr (Some (toy_digest ''[]''))"
    by (simp add: getExistingEventsHash_def readFile_def files_of_def p0 computeEventsHash_def)
  have differs: "Some (toy_digest ''[]'') \<noteq> Some ?digest"
    by code_simp
  have ne: "None \<noteq> Some ([] :: string)" "Some ?digest \<noteq> Some []"
    "Some (toy_digest ''[]'') \<noteq> Some []"
    by (simp_all add: toy_digest_def computeEventsHash_def)
  have w: "writable ?none ''public''" "writable ?none ''public/events.json''"
    "writable ?none ''.last-sync''"
    "writable ?same ''public''" "writable ?same ''public/events.json''"
    "writable ?same ''.last-sync''"
    "writable ?other ''public''" "writable ?other ''public/events.json''"
    "writable ?other ''.last-sync''"
    by (simp_all add: writable_def files_of_def)
  have o: "?other ''public/events.json'' = Text ''[]''"
    by (simp add: files_of_def)
  from publish_if_changed_C3 [OF h0 ne(1) w(1,2,3), of ?new ?ts]
    publish_if_changed_C3 [OF h1 ne(2) w(4,5,6), of ?new ?ts]
    publish_if_changed_C3 [OF h2 ne(3) w(7,8,9), of ?new ?ts] differs o
  show ?thesis
    unfolding Let_def by simp
qed




text \<open>
  On a store that answers in two pages, the whole run of src/unnamed/part_000 publishes
  the record of the first page only (see C8).
\<close>

lemma fetchAndWriteEvents_first_page_only:
  "map_option (\<lambda>run. files (outcome run) ''public/events.json'')
     (fetchAndWriteEvents toy_digest (fixed_format ''1 Jan 2099, 00:00'') example_clock
        (paged_store [])
        [[upcoming_page ''a'' ''A'' ''2099-01-01''], [upcoming_page ''b'' ''B'' ''2099-01-01'']]
        (files_of []))
   = Some (Text (JSON_stringify_indent2 (events_value
       [[(''Name'', JStr ''A''), (''Date'', JStr ''2099-01-01''), (''Status'', JStr ''Upcoming''),
         (''datePretty'', JStr ''1 Jan 2099 00:00'')]])))"
proof -
  let ?S = "[[upcoming_page ''a'' ''A'' ''2099-01-01''], [upcoming_page ''b'' ''B'' ''2099-01-01'']]"
  have st: "updateEventStatusesInNotion example_clock (paged_store []) ?S
            = Some \<lparr>returned = JBool False, calls = [], outcomes = [], updatedCount = 0,
                    store_after = ?S\<rparr>"
    by (simp only: updateEventStatusesInNotion_paged_store)
       (simp add: example_eval)
  have q: "queryVisibleEvents (paged_store []) ?S = Inr [upcoming_page ''a'' ''A'' ''2099-01-01'']"
    by (simp add: queryVisibleEvents_def paged_store_def serve_pages_def)
  have m: "mapEvent (fixed_format ''1 Jan 2099, 00:00'') (upcoming_page ''a'' ''A'' ''2099-01-01'')
           = Inr [(''Name'', JStr ''A''), (''Date'', JStr ''2099-01-01''),
                  (''Status'', JStr ''Upcoming''), (''datePretty'', JStr ''1 Jan 2099 00:00'')]"
    by (simp add: mapEvent_def upcoming_page_def collect_property_def excludedProperties_def
        obj_delete_def joined_or_null_def js_or_def date_start_or_null_def str_or_null_def
        add_datePretty_def formatDatePretty_def prop_truthy_def fixed_format_def)
  have v: "validEvents [[(''Name'', JStr ''A''), (''Date'', JStr ''2099-01-01''),
                  (''Status'', JStr ''Upcoming''), (''datePretty'', JStr ''1 Jan 2099 00:00'')]]
           = [[(''Name'', JStr ''A''), (''Date'', JStr ''2099-01-01''),
                  (''Status'', JStr ''Upcoming''), (''datePretty'', JStr ''1 Jan 2099 00:00'')]]"
    by (simp add: validEvents_def isValidEvent_def prop_truthy_def)
  have h: "getExistingEventsHash toy_digest (files_of []) = Inr None"
    by (simp add: getExistingEventsHash_def readFile_def files_of_def)
  have w: "writable (files_of []) ''public''" "writable (files_of []) ''public/events.json''"
    by (simp_all add: writable_def files_of_def)
  have "files (publish_if_changed toy_digest (files_of [])
          [[(''Name'', JStr ''A''), (''Date'', JStr ''2099-01-01''),
            (''Status'', JStr ''Upcoming''), (''datePretty'', JStr ''1 Jan 2099 00:00'')]]
          ts) ''public/events.json''
        = Text (JSON_stringify_indent2 (events_value
            [[(''Name'', JStr ''A''), (''Date'', JStr ''2099-01-01''),
              (''Status'', JStr ''Upcoming''), (''datePretty'', JStr ''1 Jan 2099 00:00'')]]))" for ts
    using h w by (intro publish_if_changed_changed(2) [where previous = None]) simp_all
  then show ?thesis
    by (simp add: fetchAndWriteEvents_def st q m v Let_def)
qed

end
